theory Spec2Isabelle
  imports Main "HOL-Library.Word"
begin

section \<open>Futures of the session core (src/session.hpp)\<close>

text \<open>
  The header defines two futures inline: \<^verbatim>\<open>SessionCloseFuture\<close> (lines 147-184) and
  \<^verbatim>\<open>SessionConnectFuture\<close> (lines 186-200). Their bodies are embedded below statement
  by statement. A call that blocks the calling thread cannot be a pure function of the
  caller's state alone: what it returns depends on when the Session's event loop delivers
  the result. That environment is made explicit as a logical clock: a future carries the
  time at which its underlying operation sets the result (or \<open>None\<close> when it never does), and
  a blocking call advances the caller's clock up to that time. A call that would wait for a
  result that never comes has the outcome \<open>Blocks_forever\<close>; a call that touches a Session
  object that has been deleted has the outcome \<open>Undefined_behaviour\<close>.
\<close>

type_synonym time = nat

type_synonym session_ptr = nat

datatype 'a outcome = Returns 'a | Blocks_forever | Undefined_behaviour

definition and_then :: "'a outcome \<Rightarrow> ('a \<Rightarrow> 'b outcome) \<Rightarrow> 'b outcome" where
  "and_then m k = (case m of Returns x \<Rightarrow> k x
                           | Blocks_forever \<Rightarrow> Blocks_forever
                           | Undefined_behaviour \<Rightarrow> Undefined_behaviour)"

text \<open>The three states of a future (spec section 3).\<close>

datatype future_state = PENDING | COMPLETE | ERROR

text \<open>
  Modelled from the spec: class \<^verbatim>\<open>Future\<close> (future.hpp is not in src). A one-shot result
  cell guarded by a mutex and a condition variable, with an optional error payload.
  \<open>set_at\<close> is the logical time at which the underlying operation sets the cell.
\<close>

record future =
  set_at :: "time option"
  error :: "string option"

text \<open>\<^verbatim>\<open>class SessionCloseFuture : public Future\<close> with its one member \<^verbatim>\<open>Session* session_\<close>
  (line 183); \<open>None\<close> is \<^verbatim>\<open>NULL\<close>. A name cannot end in an underscore here, so a member
  \<^verbatim>\<open>x_\<close> of the source is the field \<open>m_x\<close>.\<close>

record session_close_future = future +
  m_session :: "session_ptr option"

text \<open>What the calls do to the world outside the future object, in program order.\<close>

datatype action =
    LOCK
  | UNLOCK
  | JOIN session_ptr
  | DELETE session_ptr
  | SET_NULL
  | CLOSE_ASYNC session_ptr

text \<open>The event-loop thread of a live Session object: \<open>RUNNING\<close> from its start until it has
  been joined.\<close>

datatype thread_state = RUNNING | JOINED

text \<open>
  The world of the calling thread: its logical clock, the heap of live Session objects
  (a deleted Session is absent), and the trace of the actions performed so far.
\<close>

record world =
  now :: time
  sessions :: "session_ptr \<rightharpoonup> thread_state"
  trace :: "action list"

definition state_at :: "'a future_scheme \<Rightarrow> time \<Rightarrow> future_state" where
  "state_at f t = (case set_at f of
       None \<Rightarrow> PENDING
     | Some t' \<Rightarrow> if t < t' then PENDING
                  else (case error f of None \<Rightarrow> COMPLETE | Some e \<Rightarrow> ERROR))"

definition emit :: "action list \<Rightarrow> world \<Rightarrow> world" where
  "emit acts w = w\<lparr>trace := trace w @ acts\<rparr>"

text \<open>
  Modelled from the spec: \<^verbatim>\<open>ScopedMutex\<close> (scoped_mutex.hpp is not in src), the scoped lock
  of the future's \<^verbatim>\<open>mutex_\<close>: taken where the variable is declared, released where its
  scope ends.
\<close>

definition lock :: "world \<Rightarrow> world" where
  "lock w = emit [LOCK] w"

text \<open>Modelled from the spec: the end of the scope of the \<^verbatim>\<open>ScopedMutex\<close>, which releases
  \<^verbatim>\<open>mutex_\<close>.\<close>

definition unlock :: "world \<Rightarrow> world" where
  "unlock w = emit [UNLOCK] w"

text \<open>
  Modelled from the spec: \<^verbatim>\<open>Future::internal_wait\<close> (future.hpp is not in src). "Blocks the
  calling thread until the result is available, using a mutex/condition-variable pair": a
  result that is already there is seen at once; otherwise the condition variable releases
  the mutex, the caller sleeps until the result is set, and the mutex is taken again.
\<close>

definition internal_wait :: "'a future_scheme \<Rightarrow> world \<Rightarrow> world outcome" where
  "internal_wait f w = (case set_at f of
       None \<Rightarrow> Blocks_forever
     | Some t \<Rightarrow> if t \<le> now w then Returns w
                 else Returns (emit [UNLOCK, LOCK] (w\<lparr>now := t\<rparr>)))"

text \<open>
  Modelled from the spec: \<^verbatim>\<open>Future::internal_wait_for\<close> (future.hpp is not in src). "Same but
  bounded; returns whether completion occurred within the bound; does not cancel the
  underlying operation on timeout".
\<close>

definition internal_wait_for :: "'a future_scheme \<Rightarrow> 64 word \<Rightarrow> world \<Rightarrow> bool \<times> world" where
  "internal_wait_for f timeout w = (case set_at f of
       None \<Rightarrow> (False, emit [UNLOCK, LOCK] (w\<lparr>now := now w + unat timeout\<rparr>))
     | Some t \<Rightarrow> if t \<le> now w then (True, w)
                 else if t \<le> now w + unat timeout
                 then (True, emit [UNLOCK, LOCK] (w\<lparr>now := t\<rparr>))
                 else (False, emit [UNLOCK, LOCK] (w\<lparr>now := now w + unat timeout\<rparr>)))"

text \<open>
  Modelled from the spec: \<^verbatim>\<open>EventThread::join\<close> (event_thread.hpp is not in src), "joins
  the Session's internal thread": it returns once the event-loop thread has ended. The
  futures reach it only after the close future has been set, which the Session does as the
  last step of closing, so no logical time passes. Called through a dangling pointer, or on
  a thread that has been joined before, it is undefined behaviour.
\<close>

definition join :: "session_ptr \<Rightarrow> world \<Rightarrow> world outcome" where
  "join s w = (case sessions w s of
       Some RUNNING \<Rightarrow> Returns (emit [JOIN s] (w\<lparr>sessions := (sessions w)(s \<mapsto> JOINED)\<rparr>))
     | _ \<Rightarrow> Undefined_behaviour)"

text \<open>
  Modelled from the spec: \<^verbatim>\<open>delete session_\<close>, the destructor \<^verbatim>\<open>Session::~Session\<close> is
  declared only (line 64). The object leaves the heap. The spec's requirement "never
  destroyed while its event loop thread is still running" is the precondition: deleting a
  Session whose thread has not been joined, or deleting twice, is undefined behaviour.
\<close>

definition delete_session :: "session_ptr \<Rightarrow> world \<Rightarrow> world outcome" where
  "delete_session s w = (case sessions w s of
       Some JOINED \<Rightarrow> Returns (emit [DELETE s] (w\<lparr>sessions := (sessions w)(s := None)\<rparr>))
     | _ \<Rightarrow> Undefined_behaviour)"

text \<open>
  Lines 162-166 and 172-176, the same block in \<^verbatim>\<open>wait\<close> and \<^verbatim>\<open>wait_for\<close>:
  \<^verbatim>\<open>if (session_ != NULL) { session_->join(); delete session_; session_ = NULL; }\<close>
\<close>

definition join_and_delete ::
  "session_close_future \<Rightarrow> world \<Rightarrow> (session_close_future \<times> world) outcome" where
  "join_and_delete f w = (case m_session f of
       None \<Rightarrow> Returns (f, w)
     | Some s \<Rightarrow>
         and_then (join s w) (\<lambda>w1.
         and_then (delete_session s w1) (\<lambda>w2.
         Returns (f\<lparr>m_session := None\<rparr>, emit [SET_NULL] w2))))"

text \<open>\<^verbatim>\<open>SessionCloseFuture::wait\<close>, lines 157-167.\<close>

definition wait ::
  "session_close_future \<Rightarrow> world \<Rightarrow> (session_close_future \<times> world) outcome" where
  "wait f w =
     and_then (internal_wait f (lock w)) (\<lambda>w1.
     and_then (join_and_delete f w1) (\<lambda>(f', w2).
     Returns (f', unlock w2)))"

text \<open>\<^verbatim>\<open>SessionCloseFuture::wait_for\<close>, lines 169-180.\<close>

definition wait_for ::
  "session_close_future \<Rightarrow> 64 word \<Rightarrow> world \<Rightarrow> (bool \<times> session_close_future \<times> world) outcome" where
  "wait_for f timeout w =
     (case internal_wait_for f timeout (lock w) of
        (True, w1) \<Rightarrow>
          and_then (join_and_delete f w1) (\<lambda>(f', w2).
          Returns (True, f', unlock w2))
      | (False, w1) \<Rightarrow> Returns (False, f, unlock w1))"

text \<open>\<^verbatim>\<open>SessionCloseFuture::~SessionCloseFuture\<close>, lines 153-155: the body is \<^verbatim>\<open>wait()\<close>; the
  object is gone afterwards, so only the world is returned.\<close>

definition SessionCloseFuture_dtor :: "session_close_future \<Rightarrow> world \<Rightarrow> world outcome" where
  "SessionCloseFuture_dtor f w = and_then (wait f w) (\<lambda>(f', w'). Returns w')"

text \<open>The constructor, lines 149-151: a pending future that holds the Session.\<close>

definition SessionCloseFuture :: "session_ptr option \<Rightarrow> session_close_future" where
  "SessionCloseFuture session = \<lparr>set_at = None, error = None, m_session = session\<rparr>"

subsection \<open>Sequences of waits on one close future\<close>

text \<open>
  The body of \<^verbatim>\<open>wait\<close> and of \<^verbatim>\<open>wait_for\<close> runs under the future's mutex from the first
  statement to the last, the wait on the condition variable apart, so the waiters of one
  future pass through the join-and-delete block one after the other. A history of such
  calls is therefore a list, run in order; each call reports whether it observed
  completion (\<^verbatim>\<open>wait\<close> returns only then).
\<close>

datatype call = WAIT | WAIT_FOR "64 word"

definition do_call ::
  "call \<Rightarrow> session_close_future \<Rightarrow> world \<Rightarrow> (bool \<times> session_close_future \<times> world) outcome" where
  "do_call c f w = (case c of
       WAIT \<Rightarrow> and_then (wait f w) (\<lambda>(f', w'). Returns (True, f', w'))
     | WAIT_FOR timeout \<Rightarrow> wait_for f timeout w)"

fun run_calls ::
  "call list \<Rightarrow> session_close_future \<Rightarrow> world
     \<Rightarrow> (bool list \<times> session_close_future \<times> world) outcome" where
  "run_calls [] f w = Returns ([], f, w)"
| "run_calls (c # cs) f w =
     and_then (do_call c f w) (\<lambda>(r, f', w').
     and_then (run_calls cs f' w') (\<lambda>(rs, f'', w'').
     Returns (r # rs, f'', w'')))"

text \<open>The future's Session pointer is \<^verbatim>\<open>NULL\<close> or points to a Session that has not been
  deleted and whose thread has not been joined.\<close>

definition live_session :: "session_close_future \<Rightarrow> world \<Rightarrow> bool" where
  "live_session f w =
     (case m_session f of None \<Rightarrow> True | Some s \<Rightarrow> sessions w s = Some RUNNING)"

text \<open>
  A trace respects the mutex when \<^verbatim>\<open>LOCK\<close> and \<^verbatim>\<open>UNLOCK\<close> alternate, it ends unlocked, and
  every join, delete and write of the Session pointer happens while the mutex is held.
\<close>

fun under_lock :: "bool \<Rightarrow> action list \<Rightarrow> bool" where
  "under_lock held [] = (\<not> held)"
| "under_lock held (LOCK # acts) = (\<not> held \<and> under_lock True acts)"
| "under_lock held (UNLOCK # acts) = (held \<and> under_lock False acts)"
| "under_lock held (CLOSE_ASYNC s # acts) = under_lock held acts"
| "under_lock held (JOIN s # acts) = (held \<and> under_lock held acts)"
| "under_lock held (DELETE s # acts) = (held \<and> under_lock held acts)"
| "under_lock held (SET_NULL # acts) = (held \<and> under_lock held acts)"

text \<open>The world after the join-and-delete block, and after the wait for a result set at
  time \<open>t\<close>, in closed form.\<close>

definition released :: "session_close_future \<Rightarrow> world \<Rightarrow> world" where
  "released f w = (case m_session f of
       None \<Rightarrow> w
     | Some s \<Rightarrow> emit [JOIN s, DELETE s, SET_NULL] (w\<lparr>sessions := (sessions w)(s := None)\<rparr>))"

definition awaited :: "time \<Rightarrow> world \<Rightarrow> world" where
  "awaited t w = (if t \<le> now w then lock w else emit [UNLOCK, LOCK] ((lock w)\<lparr>now := t\<rparr>))"

text \<open>The world after a bounded wait that ran into its bound.\<close>

definition timed_out :: "64 word \<Rightarrow> world \<Rightarrow> world" where
  "timed_out timeout w = emit [UNLOCK, LOCK] ((lock w)\<lparr>now := now w + unat timeout\<rparr>)"

subsection \<open>The connect future\<close>

text \<open>
  Modelled from the spec: \<^verbatim>\<open>ResultFuture<Session>\<close> (future.hpp is not in src), a future
  that "holds a result value (a connected Session handle, for connect)", with the transfer
  of ownership "made explicit via a take-result operation": \<^verbatim>\<open>release_result\<close> hands the
  pointer out and leaves \<^verbatim>\<open>NULL\<close> behind.
\<close>

record session_connect_future = future +
  m_result :: "session_ptr option"

text \<open>Modelled from the spec: \<^verbatim>\<open>ResultFuture::release_result\<close> (future.hpp is not in src), the
  take-result operation: the caller gets the pointer, the future keeps \<^verbatim>\<open>NULL\<close>.\<close>

definition release_result ::
  "session_connect_future \<Rightarrow> session_ptr option \<times> session_connect_future" where
  "release_result f = (m_result f, f\<lparr>m_result := None\<rparr>)"

text \<open>The constructor, lines 188-189: the Session is the result from the start.\<close>

definition SessionConnectFuture :: "session_ptr option \<Rightarrow> session_connect_future" where
  "SessionConnectFuture session = \<lparr>set_at = None, error = None, m_result = session\<rparr>"

text \<open>
  Modelled from the spec: \<^verbatim>\<open>Session::close_async\<close> is declared only (line 94). It does not
  block; the Session's event loop closes and "then resolves the close Future", and "close
  always succeeds eventually". The time \<open>d\<close> the event loop takes is the environment's
  choice and a parameter here.
\<close>

definition close_async ::
  "time \<Rightarrow> session_ptr \<Rightarrow> session_close_future \<Rightarrow> world
     \<Rightarrow> (session_close_future \<times> world) outcome" where
  "close_async d s f w = (case sessions w s of
       None \<Rightarrow> Undefined_behaviour
     | Some st \<Rightarrow> Returns (f\<lparr>set_at := Some (now w + d)\<rparr>, emit [CLOSE_ASYNC s] w))"

text \<open>
  \<^verbatim>\<open>SessionConnectFuture::~SessionConnectFuture\<close>, lines 191-199. The local
  \<^verbatim>\<open>ScopedRefPtr<SessionCloseFuture> close_future\<close> goes out of scope at the end of the
  \<^verbatim>\<open>if\<close> block; it is the future's last holder there (the Session that was handed the raw
  pointer has been deleted), so the close future's own destructor runs.
\<close>

definition SessionConnectFuture_dtor ::
  "time \<Rightarrow> session_connect_future \<Rightarrow> world \<Rightarrow> world outcome" where
  "SessionConnectFuture_dtor d f w =
     (case release_result f of
        (None, f') \<Rightarrow> Returns w
      | (Some session, f') \<Rightarrow>
          and_then (close_async d session (SessionCloseFuture (Some session)) w)
            (\<lambda>(close_future, w1).
          and_then (wait close_future w1) (\<lambda>(close_future', w2).
          SessionCloseFuture_dtor close_future' w2)))"

section \<open>The Session (src/session.hpp, lines 61-145)\<close>

type_synonym thread_id = nat

type_synonym future_ptr = nat

text \<open>Modelled from the spec: \<^verbatim>\<open>Address\<close> (its header is not in src), the network address that
  identifies a host; only its equality is used.\<close>

type_synonym address = string

text \<open>
  Modelled from the spec: \<^verbatim>\<open>Host\<close> (host.hpp is not in src). "Attributes: network address
  (identity key), reachability state (UP/DOWN/PENDING), a mark flag used during registry
  reconciliation passes".
\<close>

datatype host_state = HOST_UP | HOST_DOWN | HOST_PENDING

record host =
  host_address :: address
  reachability :: host_state
  mark :: bool

text \<open>\<^verbatim>\<open>struct SessionEvent\<close>, lines 48-59.\<close>

datatype event_type = CONNECT | NOTIFY_READY | NOTIFY_CLOSED | NOTIFY_UP | NOTIFY_DOWN

record session_event =
  type :: event_type
  address :: address
  is_critical_failure :: bool

text \<open>
  The members of \<^verbatim>\<open>class Session\<close> (lines 129-144) that the operations below read or write.
  \<^verbatim>\<open>keyspace_mutex_\<close> holds the thread that has locked it. \<^verbatim>\<open>HostMap\<close> (host.hpp is not in
  src) is kept as an association list so that address uniqueness is a property to prove and
  not one of the type. The last two fields are the event queue of the base class
  \<^verbatim>\<open>EventThread<SessionEvent>\<close>, modelled from the spec (event_thread.hpp is not in src): the
  events "marshaled onto the Session event loop" wait in a bounded queue.
\<close>

record session =
  m_keyspace :: string
  m_keyspace_mutex :: "thread_id option"
  m_connect_future :: "future_ptr option"
  m_hosts :: "(address \<times> host) list"
  m_current_host_mark :: bool
  event_queue :: "session_event list"
  queue_capacity :: nat

subsection \<open>The keyspace accessors under threads\<close>

text \<open>
  \<^verbatim>\<open>Session::keyspace\<close> (lines 68-71) and \<^verbatim>\<open>Session::set_keyspace\<close> (lines 73-76) are each
  three atomic steps: the \<^verbatim>\<open>ScopedMutex\<close> constructor locks \<^verbatim>\<open>keyspace_mutex_\<close>, the body
  reads or writes \<^verbatim>\<open>keyspace_\<close>, and the \<^verbatim>\<open>ScopedMutex\<close> destructor unlocks at the end of
  the scope. They are the only code in src that reads or writes \<^verbatim>\<open>keyspace_\<close>. The threads
  below are arbitrary: application threads and the Session's event-loop thread alike.
\<close>

datatype keyspace_step = LOCK_MUTEX | READ_FIELD | WRITE_FIELD string | UNLOCK_MUTEX

definition keyspace :: "keyspace_step list" where
  "keyspace = [LOCK_MUTEX, READ_FIELD, UNLOCK_MUTEX]"

definition set_keyspace :: "string \<Rightarrow> keyspace_step list" where
  "set_keyspace k = [LOCK_MUTEX, WRITE_FIELD k, UNLOCK_MUTEX]"

text \<open>A thread runs a list of calls; \<open>returned\<close> collects what its \<^verbatim>\<open>keyspace()\<close> calls
  returned.\<close>

datatype keyspace_call = KEYSPACE | SET_KEYSPACE string

fun program :: "keyspace_call list \<Rightarrow> keyspace_step list" where
  "program [] = []"
| "program (KEYSPACE # cs) = keyspace @ program cs"
| "program (SET_KEYSPACE k # cs) = set_keyspace k @ program cs"

record thread =
  todo :: "keyspace_step list"
  returned :: "string list"

text \<open>The Session shared by the threads, and a history that records, for every step taken,
  the thread, the step, the holder of the mutex when the step was taken, and the value of
  \<^verbatim>\<open>keyspace_\<close> after the step (for a read, the value the call returns).\<close>

record system =
  sess :: session
  threads :: "thread_id \<Rightarrow> thread"
  history :: "(thread_id \<times> keyspace_step \<times> thread_id option \<times> string) list"

definition start :: "session \<Rightarrow> (thread_id \<Rightarrow> keyspace_call list) \<Rightarrow> system" where
  "start s calls = \<lparr>sess = s, threads = (\<lambda>t. \<lparr>todo = program (calls t), returned = []\<rparr>),
                     history = []\<rparr>"

definition commit ::
  "thread_id \<Rightarrow> keyspace_step \<Rightarrow> session \<Rightarrow> thread \<Rightarrow> system \<Rightarrow> system" where
  "commit t i s' th' sys =
     sys\<lparr>sess := s', threads := (threads sys)(t := th'),
         history := history sys @ [(t, i, m_keyspace_mutex (sess sys), m_keyspace s')]\<rparr>"

text \<open>One step of thread \<open>t\<close>. A thread that finds the mutex locked stays where it is
  (\<^verbatim>\<open>uv_mutex_lock\<close> blocks); a thread with nothing to do stays where it is.\<close>

definition step :: "thread_id \<Rightarrow> system \<Rightarrow> system" where
  "step t sys =
     (let s = sess sys; th = threads sys t in
      case todo th of
        [] \<Rightarrow> sys
      | LOCK_MUTEX # rest \<Rightarrow>
          if m_keyspace_mutex s = None
          then commit t LOCK_MUTEX (s\<lparr>m_keyspace_mutex := Some t\<rparr>) (th\<lparr>todo := rest\<rparr>) sys
          else sys
      | READ_FIELD # rest \<Rightarrow>
          commit t READ_FIELD s
            (th\<lparr>todo := rest, returned := returned th @ [m_keyspace s]\<rparr>) sys
      | WRITE_FIELD k # rest \<Rightarrow>
          commit t (WRITE_FIELD k) (s\<lparr>m_keyspace := k\<rparr>) (th\<lparr>todo := rest\<rparr>) sys
      | UNLOCK_MUTEX # rest \<Rightarrow>
          commit t UNLOCK_MUTEX (s\<lparr>m_keyspace_mutex := None\<rparr>) (th\<lparr>todo := rest\<rparr>) sys)"

text \<open>A schedule names the thread that takes each next step.\<close>

fun run :: "thread_id list \<Rightarrow> system \<Rightarrow> system" where
  "run [] sys = sys"
| "run (t # schedule) sys = run schedule (step t sys)"

text \<open>The remaining steps of a thread are well bracketed, given whether it holds the mutex:
  reads and writes only inside, \<^verbatim>\<open>LOCK\<close> only outside, \<^verbatim>\<open>UNLOCK\<close> only inside.\<close>

fun bracketed :: "bool \<Rightarrow> keyspace_step list \<Rightarrow> bool" where
  "bracketed held [] = (\<not> held)"
| "bracketed held (LOCK_MUTEX # rest) = (\<not> held \<and> bracketed True rest)"
| "bracketed held (UNLOCK_MUTEX # rest) = (held \<and> bracketed False rest)"
| "bracketed held (READ_FIELD # rest) = (held \<and> bracketed held rest)"
| "bracketed held (WRITE_FIELD k # rest) = (held \<and> bracketed held rest)"

fun is_write :: "keyspace_step \<Rightarrow> bool" where
  "is_write (WRITE_FIELD k) = True"
| "is_write other = False"

text \<open>A history entry is by the holder: a \<^verbatim>\<open>LOCK\<close> found the mutex free, and every other step
  (read, write, unlock) was taken by the thread that held the mutex.\<close>

definition by_holder :: "thread_id \<times> keyspace_step \<times> thread_id option \<times> string \<Rightarrow> bool" where
  "by_holder e = (case e of (t, i, holder, v) \<Rightarrow>
                    if i = LOCK_MUTEX then holder = None else holder = Some t)"

text \<open>Invariant of the runs: every thread's remaining steps are well bracketed.\<close>

definition owned :: "system \<Rightarrow> bool" where
  "owned sys = (\<forall>t. bracketed (m_keyspace_mutex (sess sys) = Some t) (todo (threads sys t)))"

text \<open>
  A history is faithful from a value of \<^verbatim>\<open>keyspace_\<close> when every entry records the value the
  step leaves: what a write stores, and otherwise the value before it. \<open>final\<close> is the value at
  the end of a history, and \<open>reads_of t\<close> the values recorded by the reads of thread \<open>t\<close>, in
  order.
\<close>

fun faithful :: "string \<Rightarrow> (thread_id \<times> keyspace_step \<times> thread_id option \<times> string) list \<Rightarrow> bool" where
  "faithful cur [] = True"
| "faithful cur ((u, WRITE_FIELD k, h, v) # es) = (v = k \<and> faithful v es)"
| "faithful cur ((u, i, h, v) # es) = (v = cur \<and> faithful v es)"

fun final :: "string \<Rightarrow> (thread_id \<times> keyspace_step \<times> thread_id option \<times> string) list \<Rightarrow> string" where
  "final cur [] = cur"
| "final cur ((u, i, h, v) # es) = final v es"

fun reads_of ::
  "thread_id \<Rightarrow> (thread_id \<times> keyspace_step \<times> thread_id option \<times> string) list \<Rightarrow> string list" where
  "reads_of t [] = []"
| "reads_of t ((u, i, h, v) # es) =
     (if u = t \<and> i = READ_FIELD then v # reads_of t es else reads_of t es)"

text \<open>Invariant of the runs: the history is faithful from the initial keyspace, it ends in the
  current value of \<^verbatim>\<open>keyspace_\<close>, and what each thread's \<^verbatim>\<open>keyspace()\<close> calls have returned are
  the values its reads recorded.\<close>

definition recorded :: "string \<Rightarrow> system \<Rightarrow> bool" where
  "recorded init sys \<longleftrightarrow>
     faithful init (history sys) \<and> final init (history sys) = m_keyspace (sess sys) \<and>
     (\<forall>t. returned (threads sys t) = reads_of t (history sys))"

subsection \<open>The host registry\<close>

text \<open>
  Modelled from the spec: \<^verbatim>\<open>Session::get_host\<close>, \<^verbatim>\<open>Session::add_host\<close> and
  \<^verbatim>\<open>Session::purge_hosts\<close> are declared only (lines 83-85); their definitions are not in src.
  The header gives the members: the registry \<^verbatim>\<open>hosts_\<close> and the flag \<^verbatim>\<open>current_host_mark_\<close>
  (lines 136-137). A host is marked when its mark flag equals \<^verbatim>\<open>current_host_mark_\<close>, so that
  flipping that member unmarks every host at once (the flag "must be reset at the start of
  each reconciliation pass").

  \<^verbatim>\<open>get_host(address, should_mark)\<close>: "returns the Host if present, else indicates absence",
  "optionally toggling the reconciliation mark".
\<close>

definition get_host :: "address \<Rightarrow> bool \<Rightarrow> session \<Rightarrow> host option \<times> session" where
  "get_host a should_mark s = (case map_of (m_hosts s) a of
       None \<Rightarrow> (None, s)
     | Some h \<Rightarrow>
         if should_mark
         then (Some (h\<lparr>mark := m_current_host_mark s\<rparr>),
               s\<lparr>m_hosts := map (\<lambda>(b, h'). if b = a then (b, h'\<lparr>mark := m_current_host_mark s\<rparr>)
                                              else (b, h')) (m_hosts s)\<rparr>)
         else (Some h, s))"

text \<open>
  Modelled from the spec: \<^verbatim>\<open>Session::add_host\<close> (declared at line 84, defined outside src).
  \<^verbatim>\<open>add_host(address, should_mark)\<close> "returns existing Host if already present, else
  creates, inserts, and returns a new Host in PENDING state"; a host it creates is marked
  exactly if \<open>should_mark\<close> is set.
\<close>

definition add_host :: "address \<Rightarrow> bool \<Rightarrow> session \<Rightarrow> host \<times> session" where
  "add_host a should_mark s = (case get_host a should_mark s of
       (Some h, s') \<Rightarrow> (h, s')
     | (None, s') \<Rightarrow>
         (let h = \<lparr>host_address = a, reachability = HOST_PENDING,
                   mark = (if should_mark then m_current_host_mark s
                           else \<not> m_current_host_mark s)\<rparr>
          in (h, s'\<lparr>m_hosts := m_hosts s' @ [(a, h)]\<rparr>)))"

text \<open>
  Modelled from the spec: the loop of \<^verbatim>\<open>Session::purge_hosts\<close> (declared at line 85, defined
  outside src). \<^verbatim>\<open>purge_hosts(is_initial_connection)\<close> "removes every Host whose mark flag
  is unset ... On non-initial purges, a removal triggers a remove-notification to
  dependents". The walk over the registry returns the entries kept and the hosts handed to
  \<^verbatim>\<open>on_remove\<close> (declared at line 122), in registry order.
\<close>

fun purge :: "bool \<Rightarrow> bool \<Rightarrow> (address \<times> host) list \<Rightarrow> (address \<times> host) list \<times> host list" where
  "purge current is_initial_connection [] = ([], [])"
| "purge current is_initial_connection ((a, h) # rest) =
     (case purge current is_initial_connection rest of (kept, notified) \<Rightarrow>
        if mark h \<noteq> current
        then (kept, if is_initial_connection then notified else h # notified)
        else ((a, h) # kept, notified))"

text \<open>Modelled from the spec: \<^verbatim>\<open>Session::purge_hosts\<close> itself, the walk applied to
  \<^verbatim>\<open>hosts_\<close> with the current mark; nothing else of the Session changes.\<close>

definition purge_hosts :: "bool \<Rightarrow> session \<Rightarrow> session \<times> host list" where
  "purge_hosts is_initial_connection s =
     (case purge (m_current_host_mark s) is_initial_connection (m_hosts s) of
        (kept, notified) \<Rightarrow> (s\<lparr>m_hosts := kept\<rparr>, notified))"

text \<open>Sequences of registry calls.\<close>

datatype registry_op = ADD_HOST address bool | PURGE_HOSTS bool

fun run_registry :: "registry_op list \<Rightarrow> session \<Rightarrow> session" where
  "run_registry [] s = s"
| "run_registry (ADD_HOST a should_mark # ops) s = run_registry ops (snd (add_host a should_mark s))"
| "run_registry (PURGE_HOSTS is_initial_connection # ops) s =
     run_registry ops (fst (purge_hosts is_initial_connection s))"

subsection \<open>Events marshaled onto the event loop\<close>

text \<open>
  Modelled from the spec: \<^verbatim>\<open>EventThread<SessionEvent>\<close> (event_thread.hpp is not in src). An
  event sent from any thread is appended to the queue of the Session's event loop if there
  is room, and the sender is told whether it was; the event loop takes the events out in
  the order they were put in and hands each to \<^verbatim>\<open>on_event\<close> (declared at line 108).
\<close>

definition send_event_async :: "session_event \<Rightarrow> session \<Rightarrow> bool \<times> session" where
  "send_event_async e s =
     (if length (event_queue s) < queue_capacity s
      then (True, s\<lparr>event_queue := event_queue s @ [e]\<rparr>)
      else (False, s))"

text \<open>Modelled from the spec: one turn of the event loop of \<^verbatim>\<open>EventThread\<close>, which takes
  the oldest waiting event for \<^verbatim>\<open>on_event\<close>, and the events handed to \<^verbatim>\<open>on_event\<close> when
  the loop runs until the queue is empty.\<close>

definition deliver_next :: "session \<Rightarrow> (session_event \<times> session) option" where
  "deliver_next s = (case event_queue s of
       [] \<Rightarrow> None
     | e # waiting \<Rightarrow> Some (e, s\<lparr>event_queue := waiting\<rparr>))"

function deliver_all :: "session \<Rightarrow> session_event list" where
  "deliver_all s = (case deliver_next s of
       None \<Rightarrow> []
     | Some (e, s') \<Rightarrow> e # deliver_all s')"
  by pat_completeness auto
termination
  by (relation "measure (\<lambda>s. length (event_queue s))")
     (auto simp: deliver_next_def split: list.splits)

declare deliver_all.simps [simp del]

text \<open>
  Modelled from the spec: the \<^verbatim>\<open>notify_*_async\<close> members are declared only (lines 87-90),
  "asynchronous, thread-safe event injections that are marshaled onto the Session event
  loop". Each fills a \<^verbatim>\<open>SessionEvent\<close> and sends it. The members of the event that a call has
  no argument for are not set by it; they are written here as the empty address and
  \<open>False\<close>.
\<close>

definition notify_ready_async :: "session \<Rightarrow> bool \<times> session" where
  "notify_ready_async s =
     send_event_async \<lparr>type = NOTIFY_READY, address = [], is_critical_failure = False\<rparr> s"

text \<open>Modelled from the spec: \<^verbatim>\<open>Session::notify_closed_async\<close> (declared at line 88).\<close>

definition notify_closed_async :: "session \<Rightarrow> bool \<times> session" where
  "notify_closed_async s =
     send_event_async \<lparr>type = NOTIFY_CLOSED, address = [], is_critical_failure = False\<rparr> s"

text \<open>Modelled from the spec: \<^verbatim>\<open>Session::notify_up_async\<close> (declared at line 89).\<close>

definition notify_up_async :: "address \<Rightarrow> session \<Rightarrow> bool \<times> session" where
  "notify_up_async a s =
     send_event_async \<lparr>type = NOTIFY_UP, address = a, is_critical_failure = False\<rparr> s"

text \<open>Modelled from the spec: \<^verbatim>\<open>Session::notify_down_async\<close> (declared at line 90).\<close>

definition notify_down_async :: "address \<Rightarrow> bool \<Rightarrow> session \<Rightarrow> bool \<times> session" where
  "notify_down_async a critical s =
     send_event_async \<lparr>type = NOTIFY_DOWN, address = a, is_critical_failure = critical\<rparr> s"

subsection \<open>Starting a connect\<close>

text \<open>
  Modelled from the spec: \<^verbatim>\<open>Session::connect_async\<close> is declared only (line 93). Section 4.3:
  "1. Reject with an already-connecting error if a connect is already in flight. 2. Store the
  keyspace to apply post-connect, store the Future. 3. Schedule, on the Session's own event
  loop, establishment of the Control Connection." A connect is in flight while
  \<^verbatim>\<open>connect_future_\<close> (line 134) is set. The member function returns \<^verbatim>\<open>bool\<close>: \<open>true\<close> is
  \<open>CONNECT_SCHEDULED\<close>, and the other two results are the two ways to fail. The call is given
  as one sequential state change: step 2 appears as its effect on \<^verbatim>\<open>keyspace_\<close>, and how the
  body, which is not in src, synchronises that store is not part of it.
\<close>

datatype connect_result = CONNECT_SCHEDULED | ALREADY_CONNECTING | NOT_SCHEDULED

text \<open>Modelled from the spec: \<^verbatim>\<open>Session::connect_async\<close>, the three steps in the order of
  section 4.3.\<close>

definition connect_async :: "string \<Rightarrow> future_ptr \<Rightarrow> session \<Rightarrow> connect_result \<times> session" where
  "connect_async ks fut s =
     (if m_connect_future s \<noteq> None then (ALREADY_CONNECTING, s)
      else
        (case send_event_async \<lparr>type = CONNECT, address = [], is_critical_failure = False\<rparr>
                (s\<lparr>m_keyspace := ks, m_connect_future := Some fut\<rparr>) of
           (True, s') \<Rightarrow> (CONNECT_SCHEDULED, s')
         | (False, s') \<Rightarrow> (NOT_SCHEDULED, s')))"

section \<open>Properties of the futures\<close>

subsection \<open>Closed forms of the calls\<close>

lemma live_session_lock [simp]: "live_session f (lock w) = live_session f w"
  by (simp add: live_session_def lock_def emit_def split: option.splits)

lemma live_session_now [simp]: "live_session f (w\<lparr>now := t\<rparr>) = live_session f w"
  by (simp add: live_session_def split: option.splits)

lemma live_session_emit [simp]: "live_session f (emit acts w) = live_session f w"
  by (simp add: live_session_def emit_def split: option.splits)

lemma live_session_awaited [simp]: "live_session f (awaited t w) = live_session f w"
  by (simp add: awaited_def)

lemma join_and_delete_live:
  "live_session f w \<Longrightarrow> join_and_delete f w = Returns (f\<lparr>m_session := None\<rparr>, released f w)"
  by (cases "m_session f")
     (auto simp: live_session_def join_and_delete_def released_def join_def delete_session_def
                 and_then_def emit_def)

lemma internal_wait_lock:
  "set_at f = Some t \<Longrightarrow> internal_wait f (lock w) = Returns (awaited t w)"
  by (simp add: internal_wait_def awaited_def lock_def emit_def)

lemma wait_never: "set_at f = None \<Longrightarrow> wait f w = Blocks_forever"
  by (simp add: wait_def internal_wait_def and_then_def)

lemma wait_set:
  "set_at f = Some t \<Longrightarrow> live_session f w \<Longrightarrow>
   wait f w = Returns (f\<lparr>m_session := None\<rparr>, unlock (released f (awaited t w)))"
  by (simp add: wait_def internal_wait_lock and_then_def join_and_delete_live)

lemma now_awaited [simp]: "now (awaited t w) = max (now w) t"
  by (simp add: awaited_def lock_def emit_def)

lemma now_released [simp]: "now (released f w) = now w"
  by (simp add: released_def emit_def split: option.splits)

lemma now_unlock [simp]: "now (unlock w) = now w"
  by (simp add: unlock_def emit_def)

lemma sessions_unlock [simp]: "sessions (unlock w) = sessions w"
  by (simp add: unlock_def emit_def)

lemma sessions_awaited [simp]: "sessions (awaited t w) = sessions w"
  by (simp add: awaited_def lock_def emit_def)

lemma sessions_released:
  "sessions (released f w) = (case m_session f of None \<Rightarrow> sessions w | Some s \<Rightarrow> (sessions w)(s := None))"
  by (simp add: released_def emit_def split: option.splits)

lemma trace_unlock [simp]: "trace (unlock w) = trace w @ [UNLOCK]"
  by (simp add: unlock_def emit_def)

lemma trace_awaited:
  "trace (awaited t w) = trace w @ LOCK # (if t \<le> now w then [] else [UNLOCK, LOCK])"
  by (simp add: awaited_def lock_def emit_def)

lemma trace_released:
  "trace (released f w) =
     trace w @ (case m_session f of None \<Rightarrow> [] | Some s \<Rightarrow> [JOIN s, DELETE s, SET_NULL])"
  by (simp add: released_def emit_def split: option.splits)

subsection \<open>The destructor of the close future\<close>

text \<open>
  C10. The destructor of \<^verbatim>\<open>SessionCloseFuture\<close> is a call of \<^verbatim>\<open>wait()\<close>. For a future whose
  Session pointer is \<^verbatim>\<open>NULL\<close> or points to a Session that has not been deleted and whose
  thread has not been joined: when the close never completes the destroying thread
  blocks forever; when the close completes at time \<open>t\<close> the destructor returns, not before
  \<open>t\<close>, the future is no longer pending then, and a Session the future held has been joined
  and then deleted under the mutex, in this order, so it is gone from the heap and was not
  deleted while its event-loop thread was still running (which would be undefined
  behaviour, not a return).
\<close>

theorem SessionCloseFuture_dtor_waits_joins_deletes:
  assumes "live_session f w"
  shows "(set_at f = None \<longrightarrow> SessionCloseFuture_dtor f w = Blocks_forever) \<and>
         (\<forall>t. set_at f = Some t \<longrightarrow>
            (\<exists>w'. SessionCloseFuture_dtor f w = Returns w' \<and>
                  now w' = max (now w) t \<and>
                  state_at f (now w') \<noteq> PENDING \<and>
                  (\<forall>s. m_session f = Some s \<longrightarrow>
                     sessions w' s = None \<and>
                     (\<exists>pre. trace w' = trace w @ pre @ [JOIN s, DELETE s, SET_NULL, UNLOCK]))))"
proof (intro conjI allI impI)
  assume "set_at f = None"
  then show "SessionCloseFuture_dtor f w = Blocks_forever"
    by (simp add: SessionCloseFuture_dtor_def wait_never and_then_def)
next
  fix t assume t: "set_at f = Some t"
  let ?w' = "unlock (released f (awaited t w))"
  have ret: "SessionCloseFuture_dtor f w = Returns ?w'"
    using t assms by (simp add: SessionCloseFuture_dtor_def wait_set and_then_def)
  have "now ?w' = max (now w) t" by simp
  moreover have "state_at f (now ?w') \<noteq> PENDING"
    using t by (simp add: state_at_def split: option.splits)
  moreover have "\<forall>s. m_session f = Some s \<longrightarrow>
      sessions ?w' s = None \<and>
      (\<exists>pre. trace ?w' = trace w @ pre @ [JOIN s, DELETE s, SET_NULL, UNLOCK])"
    by (auto simp: sessions_released trace_released trace_awaited)
  ultimately show "\<exists>w'. SessionCloseFuture_dtor f w = Returns w' \<and>
                  now w' = max (now w) t \<and>
                  state_at f (now w') \<noteq> PENDING \<and>
                  (\<forall>s. m_session f = Some s \<longrightarrow>
                     sessions w' s = None \<and>
                     (\<exists>pre. trace w' = trace w @ pre @ [JOIN s, DELETE s, SET_NULL, UNLOCK]))"
    using ret by blast
qed

text \<open>A future that holds Session 3, whose close completes at time 5, destroyed at time 2.\<close>

theorem SessionCloseFuture_dtor_waits_joins_deletes_witness:
  "live_session \<lparr>set_at = Some 5, error = None, m_session = Some 3\<rparr>
                \<lparr>now = 2, sessions = [3 \<mapsto> RUNNING], trace = []\<rparr> \<and>
   (\<exists>w'. SessionCloseFuture_dtor \<lparr>set_at = Some 5, error = None, m_session = Some 3\<rparr>
            \<lparr>now = 2, sessions = [3 \<mapsto> RUNNING], trace = []\<rparr> = Returns w' \<and>
         now w' = 5 \<and> sessions w' 3 = None \<and>
         (\<exists>pre. trace w' = pre @ [JOIN 3, DELETE 3, SET_NULL, UNLOCK]))"
proof -
  let ?f = "\<lparr>set_at = Some 5, error = None, m_session = Some 3\<rparr>"
  let ?w = "\<lparr>now = 2, sessions = [3 \<mapsto> RUNNING], trace = []\<rparr>"
  have live: "live_session ?f ?w"
    by (simp add: live_session_def)
  from SessionCloseFuture_dtor_waits_joins_deletes [OF live]
  have "\<exists>w'. SessionCloseFuture_dtor ?f ?w = Returns w' \<and>
         now w' = max (now ?w) 5 \<and> state_at ?f (now w') \<noteq> PENDING \<and>
         (\<forall>s. m_session ?f = Some s \<longrightarrow> sessions w' s = None \<and>
            (\<exists>pre. trace w' = trace ?w @ pre @ [JOIN s, DELETE s, SET_NULL, UNLOCK]))"
    by simp
  then show ?thesis
    using live by auto
qed

lemma state_at_PENDING_iff:
  "state_at f t = PENDING \<longleftrightarrow> (case set_at f of None \<Rightarrow> True | Some t' \<Rightarrow> t < t')"
  by (simp add: state_at_def split: option.splits)

lemma wait_for_timeout:
  "state_at f (now w + unat timeout) = PENDING \<Longrightarrow>
   wait_for f timeout w = Returns (False, f, unlock (timed_out timeout w))"
  by (auto simp: state_at_PENDING_iff wait_for_def internal_wait_for_def timed_out_def lock_def
      emit_def split: option.splits)

lemma wait_for_set:
  "set_at f = Some t \<Longrightarrow> t \<le> now w + unat timeout \<Longrightarrow> live_session f w \<Longrightarrow>
   wait_for f timeout w = Returns (True, f\<lparr>m_session := None\<rparr>, unlock (released f (awaited t w)))"
proof -
  assume a: "set_at f = Some t" "t \<le> now w + unat timeout" "live_session f w"
  have "internal_wait_for f timeout (lock w) = (True, awaited t w)"
    using a by (simp add: internal_wait_for_def awaited_def lock_def emit_def)
  then show ?thesis using a
    by (simp add: wait_for_def and_then_def join_and_delete_live)
qed

lemma now_timed_out [simp]: "now (timed_out timeout w) = now w + unat timeout"
  by (simp add: timed_out_def emit_def lock_def)

lemma sessions_timed_out [simp]: "sessions (timed_out timeout w) = sessions w"
  by (simp add: timed_out_def emit_def lock_def)

lemma trace_timed_out [simp]: "trace (timed_out timeout w) = trace w @ [LOCK, UNLOCK, LOCK]"
  by (simp add: timed_out_def emit_def lock_def)

lemma live_session_timed_out [simp]: "live_session f (timed_out timeout w) = live_session f w"
  by (simp add: timed_out_def)

lemma live_session_unlock [simp]: "live_session f (unlock w) = live_session f w"
  by (simp add: unlock_def)

subsection \<open>A bounded wait that times out\<close>

text \<open>
  C7. \<^verbatim>\<open>wait_for(timeout)\<close> on a future whose result is not available within the bound (the
  future is still \<open>PENDING\<close> at the deadline), and whose Session pointer is \<^verbatim>\<open>NULL\<close> or points
  to a live Session, returns \<open>False\<close> at the deadline. The future
  object is returned as it was (same completion time, same error payload, same Session
  pointer), it is \<open>PENDING\<close> at the return, and no Session has been joined or deleted. A
  \<^verbatim>\<open>wait()\<close> after it blocks forever when the operation never completes; otherwise it
  returns exactly when the operation completes, at time \<open>t\<close>, with the state the operation
  delivers, and with the same return time and Session heap as a \<^verbatim>\<open>wait()\<close> that had not been
  preceded by the timed-out \<^verbatim>\<open>wait_for\<close>.
\<close>

theorem wait_for_timeout_keeps_future_pending:
  assumes pending: "state_at f (now w + unat timeout) = PENDING"
    and live: "live_session f w"
  shows "\<exists>w'. wait_for f timeout w = Returns (False, f, w') \<and>
           now w' = now w + unat timeout \<and>
           sessions w' = sessions w \<and>
           state_at f (now w') = PENDING \<and>
           (case set_at f of
              None \<Rightarrow> wait f w' = Blocks_forever
            | Some t \<Rightarrow>
                (\<exists>w'' w0. wait f w' = Returns (f\<lparr>m_session := None\<rparr>, w'') \<and>
                   now w'' = t \<and>
                   state_at f (now w'') = (if error f = None then COMPLETE else ERROR) \<and>
                   wait f w = Returns (f\<lparr>m_session := None\<rparr>, w0) \<and>
                   now w0 = now w'' \<and> sessions w0 = sessions w''))"
proof -
  let ?w' = "unlock (timed_out timeout w)"
  have ret: "wait_for f timeout w = Returns (False, f, ?w')"
    using pending by (rule wait_for_timeout)
  have live': "live_session f ?w'"
    using live by simp
  have later: "case set_at f of
              None \<Rightarrow> wait f ?w' = Blocks_forever
            | Some t \<Rightarrow>
                (\<exists>w'' w0. wait f ?w' = Returns (f\<lparr>m_session := None\<rparr>, w'') \<and>
                   now w'' = t \<and>
                   state_at f (now w'') = (if error f = None then COMPLETE else ERROR) \<and>
                   wait f w = Returns (f\<lparr>m_session := None\<rparr>, w0) \<and>
                   now w0 = now w'' \<and> sessions w0 = sessions w'')"
  proof (cases "set_at f")
    case None
    then show ?thesis by (simp add: wait_never)
  next
    case (Some t)
    with pending have late: "now w + unat timeout < t"
      by (simp add: state_at_PENDING_iff)
    have st: "state_at f t = (if error f = None then COMPLETE else ERROR)"
      using Some by (simp add: state_at_def split: option.splits)
    show ?thesis
      using Some late st live live'
      by (simp add: wait_set sessions_released max_def split: option.splits)
  qed
  show ?thesis
    using ret pending later by (intro exI [of _ ?w']) simp
qed


text \<open>A close that completes at time 10, awaited at time 2 with a bound of 5.\<close>

theorem wait_for_timeout_keeps_future_pending_witness:
  "state_at \<lparr>set_at = Some 10, error = None, m_session = Some 3\<rparr> (2 + unat (5 :: 64 word)) = PENDING \<and>
   live_session \<lparr>set_at = Some 10, error = None, m_session = Some 3\<rparr>
                \<lparr>now = 2, sessions = [3 \<mapsto> RUNNING], trace = []\<rparr> \<and>
   (\<exists>w'. wait_for \<lparr>set_at = Some 10, error = None, m_session = Some 3\<rparr> 5
             \<lparr>now = 2, sessions = [3 \<mapsto> RUNNING], trace = []\<rparr> =
           Returns (False, \<lparr>set_at = Some 10, error = None, m_session = Some 3\<rparr>, w') \<and>
          now w' = 7 \<and>
          (\<exists>w''. wait \<lparr>set_at = Some 10, error = None, m_session = Some 3\<rparr> w' =
                   Returns (\<lparr>set_at = Some 10, error = None, m_session = None\<rparr>, w'') \<and>
                 now w'' = 10 \<and>
                 state_at \<lparr>set_at = Some 10, error = None, m_session = Some 3\<rparr> (now w'') = COMPLETE))"
proof -
  let ?f = "\<lparr>set_at = Some 10, error = None, m_session = Some 3\<rparr>"
  let ?w = "\<lparr>now = 2, sessions = [3 \<mapsto> RUNNING], trace = []\<rparr>"
  have pending: "state_at ?f (now ?w + unat (5 :: 64 word)) = PENDING"
    by (simp add: state_at_def)
  have live: "live_session ?f ?w"
    by (simp add: live_session_def)
  from wait_for_timeout_keeps_future_pending [OF pending live]
  show ?thesis
    using pending live by auto
qed

subsection \<open>The destructor of the connect future\<close>

lemma live_session_None [simp]: "m_session f = None \<Longrightarrow> live_session f w"
  by (simp add: live_session_def)

lemma released_None [simp]: "m_session f = None \<Longrightarrow> released f w = w"
  by (simp add: released_def)

text \<open>
  C1. A \<^verbatim>\<open>SessionConnectFuture\<close> destroyed while it still holds its Session (nobody took the
  result) closes that Session itself: the destructor starts the close, waits for it (the
  destructor returns at the time the close completes, \<open>d\<close> after it was started, whatever \<open>d\<close>
  is), joins the Session's thread and deletes the Session, in this order. When it returns the
  Session is gone from the heap and every other Session is as it was.
\<close>

theorem SessionConnectFuture_dtor_closes_held_session:
  assumes held: "m_result f = Some s"
    and alive: "sessions w s = Some RUNNING"
  shows "\<exists>w'. SessionConnectFuture_dtor d f w = Returns w' \<and>
           now w' = now w + d \<and>
           sessions w' = (sessions w)(s := None) \<and>
           trace w' = trace w @ CLOSE_ASYNC s # LOCK # (if d = 0 then [] else [UNLOCK, LOCK]) @
                        [JOIN s, DELETE s, SET_NULL, UNLOCK, LOCK, UNLOCK]"
proof -
  let ?cf = "(SessionCloseFuture (Some s))\<lparr>set_at := Some (now w + d)\<rparr>"
  let ?w1 = "emit [CLOSE_ASYNC s] w"
  let ?w2 = "unlock (released ?cf (awaited (now w + d) ?w1))"
  let ?w3 = "unlock (awaited (now w + d) ?w2)"
  have closing: "close_async d s (SessionCloseFuture (Some s)) w = Returns (?cf, ?w1)"
    using alive by (auto simp: close_async_def)
  have live1: "live_session ?cf ?w1"
    using alive by (simp add: live_session_def SessionCloseFuture_def emit_def)
  have waited: "wait ?cf ?w1 = Returns (?cf\<lparr>m_session := None\<rparr>, ?w2)"
    by (rule wait_set [OF _ live1]) simp
  have destroyed: "SessionCloseFuture_dtor (?cf\<lparr>m_session := None\<rparr>) ?w2 = Returns ?w3"
    by (simp add: SessionCloseFuture_dtor_def wait_set [where t = "now w + d"] and_then_def)
  have ret: "SessionConnectFuture_dtor d f w = Returns ?w3"
    using held closing waited destroyed
    by (simp add: SessionConnectFuture_dtor_def release_result_def and_then_def)
  have "now ?w3 = now w + d"
    by (simp add: emit_def)
  moreover have "sessions ?w3 = (sessions w)(s := None)"
    by (simp add: sessions_released SessionCloseFuture_def emit_def)
  moreover have "trace ?w3 = trace w @ CLOSE_ASYNC s # LOCK # (if d = 0 then [] else [UNLOCK, LOCK]) @
                        [JOIN s, DELETE s, SET_NULL, UNLOCK, LOCK, UNLOCK]"
    by (simp add: trace_awaited trace_released SessionCloseFuture_def emit_def)
  ultimately show ?thesis
    using ret by blast
qed


text \<open>Sessions 3 and 4 are live; the future that holds Session 3 is destroyed at time 2 and
  the close takes 4.\<close>

theorem SessionConnectFuture_dtor_closes_held_session_witness:
  "m_result (SessionConnectFuture (Some 3)) = Some 3 \<and>
   sessions \<lparr>now = 2, sessions = [3 \<mapsto> RUNNING, 4 \<mapsto> RUNNING], trace = []\<rparr> 3 = Some RUNNING \<and>
   (\<exists>w'. SessionConnectFuture_dtor 4 (SessionConnectFuture (Some 3))
             \<lparr>now = 2, sessions = [3 \<mapsto> RUNNING, 4 \<mapsto> RUNNING], trace = []\<rparr> = Returns w' \<and>
          now w' = 6 \<and> sessions w' 3 = None \<and> sessions w' 4 = Some RUNNING \<and>
          trace w' = [CLOSE_ASYNC 3, LOCK, UNLOCK, LOCK, JOIN 3, DELETE 3, SET_NULL, UNLOCK,
                      LOCK, UNLOCK])"
proof -
  let ?w = "\<lparr>now = 2, sessions = [3 \<mapsto> RUNNING, 4 \<mapsto> RUNNING], trace = []\<rparr>"
  have held: "m_result (SessionConnectFuture (Some 3)) = Some 3"
    by (simp add: SessionConnectFuture_def)
  have alive: "sessions ?w 3 = Some RUNNING"
    by simp
  from SessionConnectFuture_dtor_closes_held_session [OF held alive, of 4]
  show ?thesis
    using held by auto
qed

subsection \<open>Join and delete happen once\<close>

lemma under_lock_append:
  "under_lock held tr1 \<Longrightarrow> under_lock False tr2 \<Longrightarrow> under_lock held (tr1 @ tr2)"
  by (induction held tr1 rule: under_lock.induct) auto

lemma do_call_cases:
  assumes "live_session f w"
  obtains (blocks) "set_at f = None" "c = WAIT" "do_call c f w = Blocks_forever"
  | (observed) t where "set_at f = Some t"
      "do_call c f w = Returns (True, f\<lparr>m_session := None\<rparr>, unlock (released f (awaited t w)))"
  | (timeout) timeout where "c = WAIT_FOR timeout"
      "do_call c f w = Returns (False, f, unlock (timed_out timeout w))"
      "state_at f (now w + unat timeout) = PENDING"
proof (cases c)
  case WAIT
  show ?thesis
  proof (cases "set_at f")
    case None
    with WAIT show ?thesis
      by (intro blocks) (simp_all add: do_call_def wait_never and_then_def)
  next
    case (Some t)
    with WAIT assms show ?thesis
      by (intro observed [of t]) (simp_all add: do_call_def wait_set and_then_def)
  qed
next
  case (WAIT_FOR timeout)
  show ?thesis
  proof (cases "state_at f (now w + unat timeout) = PENDING")
    case True
    with WAIT_FOR show ?thesis
      by (intro timeout [of timeout]) (simp_all add: do_call_def wait_for_timeout)
  next
    case False
    then obtain t where "set_at f = Some t" "t \<le> now w + unat timeout"
      by (auto simp: state_at_PENDING_iff split: option.splits)
    with WAIT_FOR assms show ?thesis
      by (intro observed [of t]) (simp_all add: do_call_def wait_for_set)
  qed
qed


lemma trace_observed:
  "trace (unlock (released f (awaited t w))) =
     trace w @ LOCK # (if t \<le> now w then [] else [UNLOCK, LOCK]) @
       (case m_session f of None \<Rightarrow> [] | Some s \<Rightarrow> [JOIN s, DELETE s, SET_NULL]) @ [UNLOCK]"
  by (simp add: trace_released trace_awaited)

lemma live_session_observed:
  "live_session (f\<lparr>m_session := None\<rparr>) w'"
  by simp

lemma run_calls_effect:
  "live_session f w \<Longrightarrow> run_calls cs f w = Returns (rs, f', w') \<Longrightarrow>
   (\<exists>tr. trace w' = trace w @ tr \<and> under_lock False tr \<and>
      (\<forall>s. count_list tr (JOIN s) = (if m_session f = Some s \<and> True \<in> set rs then 1 else 0)) \<and>
      (\<forall>s. count_list tr (DELETE s) = (if m_session f = Some s \<and> True \<in> set rs then 1 else 0))) \<and>
   m_session f' = (if True \<in> set rs then None else m_session f) \<and>
   sessions w' = (if True \<in> set rs then sessions (released f w) else sessions w)"
proof (induction cs arbitrary: f w rs f' w')
  case Nil
  then show ?case by simp
next
  case (Cons c cs)
  from Cons.prems(1) show ?case
  proof (cases rule: do_call_cases [where c = c])
    case blocks
    with Cons.prems(2) show ?thesis by (simp add: and_then_def)
  next
    case (observed t)
    let ?f1 = "f\<lparr>m_session := None\<rparr>"
    let ?w1 = "unlock (released f (awaited t w))"
    from Cons.prems(2) observed obtain rs1 where
      rest: "run_calls cs ?f1 ?w1 = Returns (rs1, f', w')" and rs: "rs = True # rs1"
      by (auto simp: and_then_def split: outcome.splits)
    have live1: "live_session ?f1 ?w1" by simp
    from Cons.IH [OF live1 rest] obtain tr where
      tr: "trace w' = trace ?w1 @ tr" "under_lock False tr"
        "\<forall>s. count_list tr (JOIN s) = 0" "\<forall>s. count_list tr (DELETE s) = 0"
      and f': "m_session f' = None" and w': "sessions w' = sessions ?w1"
      by (auto split: if_splits)
    let ?tr1 = "LOCK # (if t \<le> now w then [] else [UNLOCK, LOCK]) @
       (case m_session f of None \<Rightarrow> [] | Some s \<Rightarrow> [JOIN s, DELETE s, SET_NULL]) @ [UNLOCK]"
    have "trace w' = trace w @ (?tr1 @ tr)"
      using tr(1) by (simp add: trace_released trace_awaited)
    moreover have "under_lock False ?tr1"
      by (simp split: option.splits)
    then have "under_lock False (?tr1 @ tr)"
      using tr(2) by (rule under_lock_append)
    moreover have "\<forall>s. count_list (?tr1 @ tr) (JOIN s) = (if m_session f = Some s \<and> True \<in> set rs then 1 else 0)"
      using tr(3) rs by (simp split: option.splits)
    moreover have "\<forall>s. count_list (?tr1 @ tr) (DELETE s) = (if m_session f = Some s \<and> True \<in> set rs then 1 else 0)"
      using tr(4) rs by (simp split: option.splits)
    moreover have "sessions w' = (if True \<in> set rs then sessions (released f w) else sessions w)"
      using w' rs by (simp add: sessions_released split: option.splits)
    ultimately show ?thesis
      using f' rs by (intro conjI exI [of _ "?tr1 @ tr"]) simp_all
  next
    case (timeout timeout)
    let ?w1 = "unlock (timed_out timeout w)"
    from Cons.prems(2) timeout obtain rs1 where
      rest: "run_calls cs f ?w1 = Returns (rs1, f', w')" and rs: "rs = False # rs1"
      by (auto simp: and_then_def split: outcome.splits)
    have live1: "live_session f ?w1" using Cons.prems(1) by simp
    from Cons.IH [OF live1 rest] obtain tr where
      tr: "trace w' = trace ?w1 @ tr" "under_lock False tr"
        "\<forall>s. count_list tr (JOIN s) = (if m_session f = Some s \<and> True \<in> set rs1 then 1 else 0)"
        "\<forall>s. count_list tr (DELETE s) = (if m_session f = Some s \<and> True \<in> set rs1 then 1 else 0)"
      and f': "m_session f' = (if True \<in> set rs1 then None else m_session f)"
      and w': "sessions w' = (if True \<in> set rs1 then sessions (released f ?w1) else sessions ?w1)"
      by blast
    let ?tr1 = "[LOCK, UNLOCK, LOCK, UNLOCK]"
    have "trace w' = trace w @ (?tr1 @ tr)"
      using tr(1) by simp
    moreover have "under_lock False (?tr1 @ tr)"
      using tr(2) by simp
    moreover have "\<forall>s. count_list (?tr1 @ tr) (JOIN s) = (if m_session f = Some s \<and> True \<in> set rs then 1 else 0)"
      using tr(3) rs by simp
    moreover have "\<forall>s. count_list (?tr1 @ tr) (DELETE s) = (if m_session f = Some s \<and> True \<in> set rs then 1 else 0)"
      using tr(4) rs by simp
    moreover have "sessions w' = (if True \<in> set rs then sessions (released f w) else sessions w)"
      using w' rs by (simp add: sessions_released split: option.splits)
    ultimately show ?thesis
      using f' rs by (intro conjI exI [of _ "?tr1 @ tr"]) simp_all
  qed
qed


lemma no_False_all_True: "False \<notin> set rs \<Longrightarrow> x \<in> set rs \<Longrightarrow> x"
  by (cases x) auto

lemma run_calls_progress:
  "live_session f w \<Longrightarrow>
   (case run_calls cs f w of
      Returns (rs, f', w') \<Rightarrow>
        sorted rs \<and> (\<forall>t. set_at f = Some t \<longrightarrow> t \<le> now w \<longrightarrow> False \<notin> set rs)
    | Blocks_forever \<Rightarrow> set_at f = None
    | Undefined_behaviour \<Rightarrow> False)"
proof (induction cs arbitrary: f w)
  case Nil
  then show ?case by simp
next
  case (Cons c cs)
  from Cons.prems show ?case
  proof (cases rule: do_call_cases [where c = c])
    case blocks
    then show ?thesis by (simp add: and_then_def)
  next
    case (observed t)
    let ?f1 = "f\<lparr>m_session := None\<rparr>"
    let ?w1 = "unlock (released f (awaited t w))"
    have "live_session ?f1 ?w1" by simp
    from Cons.IH [OF this] observed(1) show ?thesis
      by (auto simp: observed(2) and_then_def split: outcome.splits dest: no_False_all_True)
  next
    case (timeout timeout)
    let ?w1 = "unlock (timed_out timeout w)"
    have "live_session f ?w1" using Cons.prems by simp
    from Cons.IH [OF this] timeout(3) show ?thesis
      by (auto simp: timeout(2) and_then_def state_at_PENDING_iff split: outcome.splits)
  qed
qed

text \<open>
  C8. On a \<^verbatim>\<open>SessionCloseFuture\<close> that holds a live Session \<open>s\<close>, for every sequence of
  \<^verbatim>\<open>wait\<close> and \<^verbatim>\<open>wait_for\<close> calls: the sequence never runs into undefined behaviour (no
  second join, no second delete, no delete before the join); it returns whenever the close
  completes at some time; and when it returns, the trace it added takes and releases the
  mutex in turn, with every join, delete and write of the pointer while the mutex is held,
  and contains the join of \<open>s\<close> exactly once and the delete of \<open>s\<close> exactly once if some call
  observed completion, and not at all otherwise. The pointer is \<^verbatim>\<open>NULL\<close> and the Session is
  gone exactly if some call observed completion, and once a call has observed completion
  every later call observes it too.
\<close>

theorem close_future_joins_and_deletes_once:
  assumes held: "m_session f = Some s"
    and alive: "sessions w s = Some RUNNING"
  shows "run_calls cs f w \<noteq> Undefined_behaviour \<and>
         (set_at f \<noteq> None \<longrightarrow> run_calls cs f w \<noteq> Blocks_forever) \<and>
         (\<forall>rs f' w'. run_calls cs f w = Returns (rs, f', w') \<longrightarrow>
            (\<exists>tr. trace w' = trace w @ tr \<and> under_lock False tr \<and>
               count_list tr (JOIN s) = (if True \<in> set rs then 1 else 0) \<and>
               count_list tr (DELETE s) = (if True \<in> set rs then 1 else 0)) \<and>
            m_session f' = (if True \<in> set rs then None else Some s) \<and>
            (sessions w' s = None \<longleftrightarrow> True \<in> set rs) \<and>
            (\<forall>i j. i \<le> j \<and> j < length rs \<and> rs ! i \<longrightarrow> rs ! j))"
proof -
  have live: "live_session f w"
    using held alive by (simp add: live_session_def)
  note progress = run_calls_progress [OF live, of cs]
  have "run_calls cs f w \<noteq> Undefined_behaviour"
    using progress by (auto split: outcome.splits)
  moreover have "set_at f \<noteq> None \<longrightarrow> run_calls cs f w \<noteq> Blocks_forever"
    using progress by (auto split: outcome.splits)
  moreover have "\<forall>rs f' w'. run_calls cs f w = Returns (rs, f', w') \<longrightarrow>
            (\<exists>tr. trace w' = trace w @ tr \<and> under_lock False tr \<and>
               count_list tr (JOIN s) = (if True \<in> set rs then 1 else 0) \<and>
               count_list tr (DELETE s) = (if True \<in> set rs then 1 else 0)) \<and>
            m_session f' = (if True \<in> set rs then None else Some s) \<and>
            (sessions w' s = None \<longleftrightarrow> True \<in> set rs) \<and>
            (\<forall>i j. i \<le> j \<and> j < length rs \<and> rs ! i \<longrightarrow> rs ! j)"
  proof (intro allI impI)
    fix rs f' w'
    assume ret: "run_calls cs f w = Returns (rs, f', w')"
    from run_calls_effect [OF live ret] held obtain tr where
      tr: "trace w' = trace w @ tr" "under_lock False tr"
        "count_list tr (JOIN s) = (if True \<in> set rs then 1 else 0)"
        "count_list tr (DELETE s) = (if True \<in> set rs then 1 else 0)"
      and f': "m_session f' = (if True \<in> set rs then None else Some s)"
      and w': "sessions w' = (if True \<in> set rs then sessions (released f w) else sessions w)"
      by auto
    have gone: "sessions w' s = None \<longleftrightarrow> True \<in> set rs"
      using w' held alive by (simp add: sessions_released)
    have "sorted rs"
      using progress ret by simp
    then have mono: "\<forall>i j. i \<le> j \<and> j < length rs \<and> rs ! i \<longrightarrow> rs ! j"
      by (auto simp: sorted_iff_nth_mono)
    show "(\<exists>tr. trace w' = trace w @ tr \<and> under_lock False tr \<and>
               count_list tr (JOIN s) = (if True \<in> set rs then 1 else 0) \<and>
               count_list tr (DELETE s) = (if True \<in> set rs then 1 else 0)) \<and>
            m_session f' = (if True \<in> set rs then None else Some s) \<and>
            (sessions w' s = None \<longleftrightarrow> True \<in> set rs) \<and>
            (\<forall>i j. i \<le> j \<and> j < length rs \<and> rs ! i \<longrightarrow> rs ! j)"
      using tr f' gone mono by blast
  qed
  ultimately show ?thesis by blast
qed

text \<open>Four calls on a future that holds Session 3 and whose close completes at time 10: the
  first times out, the second joins and deletes, the last two find nothing left to do.\<close>

theorem close_future_joins_and_deletes_once_witness:
  "m_session \<lparr>set_at = Some 10, error = None, m_session = Some 3\<rparr> = Some 3 \<and>
   sessions \<lparr>now = 2, sessions = [3 \<mapsto> RUNNING], trace = []\<rparr> 3 = Some RUNNING \<and>
   (\<exists>f' w'. run_calls [WAIT_FOR 3, WAIT, WAIT_FOR 1, WAIT]
                \<lparr>set_at = Some 10, error = None, m_session = Some 3\<rparr>
                \<lparr>now = 2, sessions = [3 \<mapsto> RUNNING], trace = []\<rparr> =
              Returns ([False, True, True, True], f', w') \<and>
            under_lock False (trace w') \<and>
            count_list (trace w') (JOIN 3) = 1 \<and>
            count_list (trace w') (DELETE 3) = 1 \<and>
            m_session f' = None \<and> sessions w' 3 = None)"
proof -
  let ?f = "\<lparr>set_at = Some 10, error = None, m_session = Some 3\<rparr>"
  let ?w = "\<lparr>now = 2, sessions = [3 \<mapsto> RUNNING], trace = []\<rparr>"
  let ?cs = "[WAIT_FOR 3, WAIT, WAIT_FOR 1, WAIT]"
  have held: "m_session ?f = Some 3"
    by simp
  have alive: "sessions ?w 3 = Some RUNNING"
    by simp
  have run: "\<exists>f' w'. run_calls ?cs ?f ?w = Returns ([False, True, True, True], f', w')"
    by (simp add: do_call_def wait_def wait_for_def internal_wait_def internal_wait_for_def
        join_and_delete_def join_def delete_session_def and_then_def lock_def unlock_def
        emit_def)
  from close_future_joins_and_deletes_once [OF held alive, of ?cs] run
  show ?thesis
    by auto
qed

section \<open>Properties of the keyspace accessors\<close>

lemma bracketed_program: "bracketed False (program cs)"
  by (induction cs rule: program.induct) (simp_all add: keyspace_def set_keyspace_def)

lemma owned_start: "m_keyspace_mutex s = None \<Longrightarrow> owned (start s calls)"
  by (simp add: owned_def start_def bracketed_program)

lemma step_owned:
  assumes "owned sys" "list_all by_holder (history sys)"
  shows "owned (step t sys) \<and> list_all by_holder (history (step t sys))"
proof (cases "todo (threads sys t)")
  case Nil
  with assms show ?thesis by (simp add: step_def Let_def)
next
  case (Cons i rest)
  have mine: "bracketed (m_keyspace_mutex (sess sys) = Some t) (i # rest)"
    using assms(1) Cons by (auto simp: owned_def dest: spec [of _ t])
  have others: "bracketed (m_keyspace_mutex (sess sys) = Some u) (todo (threads sys u))" for u
    using assms(1) by (simp add: owned_def)
  show ?thesis
  proof (cases "i = LOCK_MUTEX")
    case True
    show ?thesis
    proof (cases "m_keyspace_mutex (sess sys)")
      case None
      have "bracketed False (todo (threads sys u))" for u
        using others [of u] None by simp
      moreover have "bracketed True rest"
        using mine True None by simp
      ultimately show ?thesis
        using True Cons None assms(2)
        by (auto simp: step_def Let_def commit_def owned_def by_holder_def)
    next
      case (Some v)
      with True Cons assms show ?thesis
        by (simp add: step_def Let_def)
    qed
  next
    case False
    then have holder: "m_keyspace_mutex (sess sys) = Some t"
      using mine by (cases i) auto
    have outside: "u \<noteq> t \<Longrightarrow> bracketed False (todo (threads sys u))" for u
      using others [of u] holder by auto
    have inside: "bracketed (i \<noteq> UNLOCK_MUTEX) rest"
      using mine False holder by (cases i) auto
    show ?thesis
      using False Cons holder outside inside assms(2)
      by (cases i) (auto simp: step_def Let_def commit_def owned_def by_holder_def)
  qed
qed

lemma run_owned:
  "owned sys \<Longrightarrow> list_all by_holder (history sys) \<Longrightarrow>
   owned (run schedule sys) \<and> list_all by_holder (history (run schedule sys))"
  by (induction schedule arbitrary: sys) (simp_all add: step_owned)

lemma faithful_append:
  "faithful cur (xs @ ys) \<longleftrightarrow> faithful cur xs \<and> faithful (final cur xs) ys"
  by (induction cur xs rule: faithful.induct) auto

lemma final_append: "final cur (xs @ ys) = final (final cur xs) ys"
  by (induction cur xs rule: final.induct) auto

lemma reads_of_append: "reads_of t (xs @ ys) = reads_of t xs @ reads_of t ys"
  by (induction t xs rule: reads_of.induct) auto

lemma final_no_write:
  "faithful cur es \<Longrightarrow> \<forall>(u, i, h, v)\<in>set es. \<not> is_write i \<Longrightarrow> final cur es = cur"
  by (induction cur es rule: faithful.induct) auto

lemma write_then_read:
  assumes "faithful init (pre @ (u, WRITE_FIELD k, hu, a) # mid @ (t, READ_FIELD, ht, v) # post)"
    and "\<forall>(u', i, h, v')\<in>set mid. \<not> is_write i"
  shows "v = k"
proof -
  from assms(1) have "a = k" and rest: "faithful k (mid @ (t, READ_FIELD, ht, v) # post)"
    by (auto simp: faithful_append)
  from rest have mid: "faithful k mid" and "v = final k mid"
    by (auto simp: faithful_append)
  with assms(2) show ?thesis
    by (simp add: final_no_write)
qed

lemma recorded_start: "recorded (m_keyspace s) (start s calls)"
  by (simp add: recorded_def start_def)

lemma step_recorded: "recorded init sys \<Longrightarrow> recorded init (step t sys)"
  by (auto simp: recorded_def step_def Let_def commit_def faithful_append final_append
      reads_of_append split: list.splits keyspace_step.splits)

lemma run_recorded: "recorded init sys \<Longrightarrow> recorded init (run schedule sys)"
  by (induction schedule arbitrary: sys) (simp_all add: step_recorded)

lemma alone:
  assumes "m_keyspace_mutex s = None" "calls t = [SET_KEYSPACE k, KEYSPACE]"
  shows "threads (run (replicate 6 t) (start s calls)) t = \<lparr>todo = [], returned = [k]\<rparr>"
  using assms
  by (simp add: eval_nat_numeral start_def step_def Let_def commit_def keyspace_def set_keyspace_def)

text \<open>
  C2. The two accessors are the only code of src/session.hpp that touches \<^verbatim>\<open>keyspace_\<close>.
  On a Session whose keyspace mutex is free at the start, with any number of threads that
  each run any list of \<^verbatim>\<open>keyspace()\<close> and \<^verbatim>\<open>set_keyspace\<close> calls, under every schedule:
  every read and every write of \<^verbatim>\<open>keyspace_\<close> (and every unlock) is made by the thread that
  holds \<^verbatim>\<open>keyspace_mutex_\<close>, and every lock finds it free, so the accesses of two calls never
  overlap. For every write of \<open>k\<close> by a \<^verbatim>\<open>set_keyspace(k)\<close> of any thread and every later read
  by a \<^verbatim>\<open>keyspace()\<close> of any thread, the same or another, with no write between the two in
  the history, the read has the value \<open>k\<close>; and what the \<^verbatim>\<open>keyspace()\<close> calls of a thread
  return are the values of its reads, in order. A thread that runs
  \<^verbatim>\<open>set_keyspace(k); keyspace()\<close> alone has returned \<open>k\<close> after its six steps.
\<close>

theorem keyspace_round_trip_under_mutex:
  assumes free: "m_keyspace_mutex s = None"
  shows "list_all by_holder (history (run schedule (start s calls))) \<and>
         (\<forall>pre mid post u t k hu ht a v.
            history (run schedule (start s calls)) =
              pre @ (u, WRITE_FIELD k, hu, a) # mid @ (t, READ_FIELD, ht, v) # post \<and>
            (\<forall>(u', i, h, v')\<in>set mid. \<not> is_write i) \<longrightarrow> v = k) \<and>
         (\<forall>t. returned (threads (run schedule (start s calls)) t) =
                reads_of t (history (run schedule (start s calls)))) \<and>
         (calls t = [SET_KEYSPACE k, KEYSPACE] \<longrightarrow>
            threads (run (replicate 6 t) (start s calls)) t = \<lparr>todo = [], returned = [k]\<rparr>)"
proof -
  let ?end = "run schedule (start s calls)"
  have by_holder: "list_all by_holder (history ?end)"
    using run_owned [OF owned_start [OF free], of calls schedule] by (simp add: start_def)
  have rec: "recorded (m_keyspace s) ?end"
    by (intro run_recorded recorded_start)
  have pairs: "\<forall>pre mid post u t k hu ht a v.
            history ?end = pre @ (u, WRITE_FIELD k, hu, a) # mid @ (t, READ_FIELD, ht, v) # post \<and>
            (\<forall>(u', i, h, v')\<in>set mid. \<not> is_write i) \<longrightarrow> v = k"
  proof (intro allI impI)
    fix pre mid post u t k hu ht a v
    assume a: "history ?end = pre @ (u, WRITE_FIELD k, hu, a) # mid @ (t, READ_FIELD, ht, v) # post \<and>
            (\<forall>(u', i, h, v')\<in>set mid. \<not> is_write i)"
    from rec have "faithful (m_keyspace s) (history ?end)"
      by (simp add: recorded_def)
    with a show "v = k"
      by (auto intro: write_then_read)
  qed
  have reads: "\<forall>t. returned (threads ?end t) = reads_of t (history ?end)"
    using rec by (simp add: recorded_def)
  have solo: "calls t = [SET_KEYSPACE k, KEYSPACE] \<longrightarrow>
            threads (run (replicate 6 t) (start s calls)) t = \<lparr>todo = [], returned = [k]\<rparr>"
    using free by (auto intro: alone)
  from by_holder pairs reads solo show ?thesis
    by blast
qed

text \<open>
  Three threads: thread 1 writes \<open>z\<close>, thread 2 reads (and gets \<open>z\<close>), thread 0 writes \<open>k\<close>
  while thread 1 waits for the mutex, then thread 1 reads, with no write since that of
  thread 0, and gets \<open>k\<close>, not its own \<open>z\<close>; thread 0 reads \<open>k\<close> back last.
\<close>

theorem keyspace_round_trip_under_mutex_witness:
  "m_keyspace_mutex \<lparr>m_keyspace = ''old'', m_keyspace_mutex = None, m_connect_future = None,
      m_hosts = [], m_current_host_mark = False, event_queue = [], queue_capacity = 4\<rparr> = None \<and>
   history (run [1, 1, 1, 2, 2, 2, 0, 0, 1, 0, 1, 1, 0, 1, 0, 0, 0]
      (start \<lparr>m_keyspace = ''old'', m_keyspace_mutex = None, m_connect_future = None,
      m_hosts = [], m_current_host_mark = False, event_queue = [], queue_capacity = 4\<rparr>
         (\<lambda>t. if t = 0 then [SET_KEYSPACE ''k'', KEYSPACE]
            else if t = 1 then [SET_KEYSPACE ''z'', KEYSPACE]
            else if t = 2 then [KEYSPACE] else []))) =
     [(1, LOCK_MUTEX, None, ''old''), (1, WRITE_FIELD ''z'', Some 1, ''z''),
      (1, UNLOCK_MUTEX, Some 1, ''z''), (2, LOCK_MUTEX, None, ''z''),
      (2, READ_FIELD, Some 2, ''z''), (2, UNLOCK_MUTEX, Some 2, ''z''),
      (0, LOCK_MUTEX, None, ''z'')] @
     (0, WRITE_FIELD ''k'', Some 0, ''k'') #
     [(0, UNLOCK_MUTEX, Some 0, ''k''), (1, LOCK_MUTEX, None, ''k'')] @
     (1, READ_FIELD, Some 1, ''k'') #
     [(1, UNLOCK_MUTEX, Some 1, ''k''), (0, LOCK_MUTEX, None, ''k''),
      (0, READ_FIELD, Some 0, ''k''), (0, UNLOCK_MUTEX, Some 0, ''k'')] \<and>
   list_all (\<lambda>(u, i, h, v). \<not> is_write i)
     [(0, UNLOCK_MUTEX, Some 0, ''k''), (1, LOCK_MUTEX, None, ''k'')] \<and>
   list_all by_holder (history (run [1, 1, 1, 2, 2, 2, 0, 0, 1, 0, 1, 1, 0, 1, 0, 0, 0]
      (start \<lparr>m_keyspace = ''old'', m_keyspace_mutex = None, m_connect_future = None,
      m_hosts = [], m_current_host_mark = False, event_queue = [], queue_capacity = 4\<rparr>
         (\<lambda>t. if t = 0 then [SET_KEYSPACE ''k'', KEYSPACE]
            else if t = 1 then [SET_KEYSPACE ''z'', KEYSPACE]
            else if t = 2 then [KEYSPACE] else [])))) \<and>
   returned (threads (run [1, 1, 1, 2, 2, 2, 0, 0, 1, 0, 1, 1, 0, 1, 0, 0, 0]
      (start \<lparr>m_keyspace = ''old'', m_keyspace_mutex = None, m_connect_future = None,
      m_hosts = [], m_current_host_mark = False, event_queue = [], queue_capacity = 4\<rparr>
         (\<lambda>t. if t = 0 then [SET_KEYSPACE ''k'', KEYSPACE]
            else if t = 1 then [SET_KEYSPACE ''z'', KEYSPACE]
            else if t = 2 then [KEYSPACE] else []))) 0) = [''k''] \<and>
   returned (threads (run [1, 1, 1, 2, 2, 2, 0, 0, 1, 0, 1, 1, 0, 1, 0, 0, 0]
      (start \<lparr>m_keyspace = ''old'', m_keyspace_mutex = None, m_connect_future = None,
      m_hosts = [], m_current_host_mark = False, event_queue = [], queue_capacity = 4\<rparr>
         (\<lambda>t. if t = 0 then [SET_KEYSPACE ''k'', KEYSPACE]
            else if t = 1 then [SET_KEYSPACE ''z'', KEYSPACE]
            else if t = 2 then [KEYSPACE] else []))) 1) = [''k''] \<and>
   returned (threads (run [1, 1, 1, 2, 2, 2, 0, 0, 1, 0, 1, 1, 0, 1, 0, 0, 0]
      (start \<lparr>m_keyspace = ''old'', m_keyspace_mutex = None, m_connect_future = None,
      m_hosts = [], m_current_host_mark = False, event_queue = [], queue_capacity = 4\<rparr>
         (\<lambda>t. if t = 0 then [SET_KEYSPACE ''k'', KEYSPACE]
            else if t = 1 then [SET_KEYSPACE ''z'', KEYSPACE]
            else if t = 2 then [KEYSPACE] else []))) 2) = [''z'']"
proof -
  let ?s = "\<lparr>m_keyspace = ''old'', m_keyspace_mutex = None, m_connect_future = None,
      m_hosts = [], m_current_host_mark = False, event_queue = [], queue_capacity = 4\<rparr>"
  let ?calls = "(\<lambda>t. if t = 0 then [SET_KEYSPACE ''k'', KEYSPACE]
            else if t = 1 then [SET_KEYSPACE ''z'', KEYSPACE]
            else if t = 2 then [KEYSPACE] else []) :: thread_id \<Rightarrow> keyspace_call list"
  let ?schedule = "[1, 1, 1, 2, 2, 2, 0, 0, 1, 0, 1, 1, 0, 1, 0, 0, 0] :: thread_id list"
  let ?pre = "[(1, LOCK_MUTEX, None, ''old''), (1, WRITE_FIELD ''z'', Some 1, ''z''),
      (1, UNLOCK_MUTEX, Some 1, ''z''), (2, LOCK_MUTEX, None, ''z''),
      (2, READ_FIELD, Some 2, ''z''), (2, UNLOCK_MUTEX, Some 2, ''z''),
      (0, LOCK_MUTEX, None, ''z'')] :: (thread_id \<times> keyspace_step \<times> thread_id option \<times> string) list"
  let ?mid = "[(0, UNLOCK_MUTEX, Some 0, ''k''), (1, LOCK_MUTEX, None, ''k'')] :: (thread_id \<times> keyspace_step \<times> thread_id option \<times> string) list"
  let ?post = "[(1, UNLOCK_MUTEX, Some 1, ''k''), (0, LOCK_MUTEX, None, ''k''),
      (0, READ_FIELD, Some 0, ''k''), (0, UNLOCK_MUTEX, Some 0, ''k'')] :: (thread_id \<times> keyspace_step \<times> thread_id option \<times> string) list"
  have free: "m_keyspace_mutex ?s = None"
    by simp
  have quiet: "\<forall>(u, i, h, v)\<in>set ?mid. \<not> is_write i"
    by simp
  obtain v where split: "history (run ?schedule (start ?s ?calls)) =
      ?pre @ (0, WRITE_FIELD ''k'', Some 0, ''k'') # ?mid @ (1, READ_FIELD, Some 1, v) # ?post"
    by (simp add: start_def step_def Let_def commit_def keyspace_def set_keyspace_def)
  note facts = keyspace_round_trip_under_mutex [OF free, of ?schedule ?calls]
  from facts split quiet have value_read: "v = ''k''"
    by blast
  from facts have holders: "list_all by_holder (history (run ?schedule (start ?s ?calls)))"
    by blast
  from facts have reads: "returned (threads (run ?schedule (start ?s ?calls)) t) =
      reads_of t (history (run ?schedule (start ?s ?calls)))" for t
    by blast
  show ?thesis
    using free split value_read holders reads [of 0] reads [of 1] reads [of 2]
    by simp
qed

section \<open>Properties of the host registry\<close>

lemma purge_filter:
  "purge current i hosts =
     (filter (\<lambda>(a, h). mark h = current) hosts,
      if i then [] else map snd (filter (\<lambda>(a, h). mark h \<noteq> current) hosts))"
  by (induction hosts rule: purge.induct[of _ current i]) (auto split: prod.splits)

text \<open>
  C4. \<^verbatim>\<open>purge_hosts(is_initial_connection)\<close> leaves in the registry exactly the entries whose
  host is marked (its flag equals the current mark), in their order, and changes nothing else
  of the Session; the hosts it removes are exactly those whose flag differs from the current
  mark, and each of them is handed to \<^verbatim>\<open>on_remove\<close> when \<open>is_initial_connection\<close> is false and
  none is when it is true.
\<close>

theorem purge_hosts_removes_unmarked:
  "purge_hosts is_initial_connection s =
     (s\<lparr>m_hosts := filter (\<lambda>(a, h). mark h = m_current_host_mark s) (m_hosts s)\<rparr>,
      if is_initial_connection then []
      else map snd (filter (\<lambda>(a, h). mark h \<noteq> m_current_host_mark s) (m_hosts s)))"
  by (simp add: purge_hosts_def purge_filter)

text \<open>A registry with an unmarked and a marked host, purged after the initial connection.\<close>

theorem purge_hosts_removes_unmarked_witness:
  "purge_hosts False
     \<lparr>m_keyspace = ''ks'', m_keyspace_mutex = None, m_connect_future = None,
       m_hosts = [(''10.0.0.1'', \<lparr>host_address = ''10.0.0.1'', reachability = HOST_UP, mark = True\<rparr>),
                  (''10.0.0.2'', \<lparr>host_address = ''10.0.0.2'', reachability = HOST_DOWN, mark = False\<rparr>)],
       m_current_host_mark = False, event_queue = [], queue_capacity = 4\<rparr> =
   (\<lparr>m_keyspace = ''ks'', m_keyspace_mutex = None, m_connect_future = None,
       m_hosts = [(''10.0.0.2'', \<lparr>host_address = ''10.0.0.2'', reachability = HOST_DOWN, mark = False\<rparr>)],
       m_current_host_mark = False, event_queue = [], queue_capacity = 4\<rparr>,
    [\<lparr>host_address = ''10.0.0.1'', reachability = HOST_UP, mark = True\<rparr>])"
  using purge_hosts_removes_unmarked
    [of False "\<lparr>m_keyspace = ''ks'', m_keyspace_mutex = None, m_connect_future = None,
       m_hosts = [(''10.0.0.1'', \<lparr>host_address = ''10.0.0.1'', reachability = HOST_UP, mark = True\<rparr>),
                  (''10.0.0.2'', \<lparr>host_address = ''10.0.0.2'', reachability = HOST_DOWN, mark = False\<rparr>)],
       m_current_host_mark = False, event_queue = [], queue_capacity = 4\<rparr>"]
  by simp

lemma keys_get_host: "map fst (m_hosts (snd (get_host a m s))) = map fst (m_hosts s)"
  by (auto simp: get_host_def split: option.splits)

lemma get_host_None: "fst (get_host a m s) = None \<longleftrightarrow> a \<notin> fst ` set (m_hosts s)"
  using map_of_eq_None_iff [of "m_hosts s" a]
  by (auto simp: get_host_def split: option.splits)

lemma keys_add_host:
  "map fst (m_hosts (snd (add_host a m s))) =
     (if a \<in> fst ` set (m_hosts s) then map fst (m_hosts s) else map fst (m_hosts s) @ [a])"
  using keys_get_host [of a m s] get_host_None [of a m s]
  by (cases "get_host a m s") (auto simp: add_host_def Let_def split: option.splits)

lemma distinct_add_host:
  "distinct (map fst (m_hosts s)) \<Longrightarrow> distinct (map fst (m_hosts (snd (add_host a m s))))"
  by (simp add: keys_add_host)

lemma distinct_purge_hosts:
  "distinct (map fst (m_hosts s)) \<Longrightarrow> distinct (map fst (m_hosts (fst (purge_hosts i s))))"
  by (simp add: purge_hosts_def purge_filter distinct_map_filter)

lemma distinct_run_registry:
  "distinct (map fst (m_hosts s)) \<Longrightarrow> distinct (map fst (m_hosts (run_registry ops s)))"
  by (induction ops s rule: run_registry.induct)
     (simp_all add: distinct_add_host distinct_purge_hosts)

lemma add_host_present:
  "map_of (m_hosts s) a = Some h \<Longrightarrow> add_host a False s = (h, s)"
  by (simp add: add_host_def get_host_def)

lemma add_host_absent:
  "map_of (m_hosts s) a = None \<Longrightarrow>
   add_host a m s =
     (\<lparr>host_address = a, reachability = HOST_PENDING,
       mark = (if m then m_current_host_mark s else \<not> m_current_host_mark s)\<rparr>,
      s\<lparr>m_hosts := m_hosts s @
         [(a, \<lparr>host_address = a, reachability = HOST_PENDING,
               mark = (if m then m_current_host_mark s else \<not> m_current_host_mark s)\<rparr>)]\<rparr>)"
  by (simp add: add_host_def get_host_def Let_def)

lemma add_host_idem: "add_host a False (snd (add_host a False s)) = add_host a False s"
proof (cases "map_of (m_hosts s) a")
  case None
  then show ?thesis
    by (simp add: add_host_absent add_host_present map_add_def)
next
  case (Some h)
  then show ?thesis by (simp add: add_host_present)
qed

text \<open>
  C3. \<^verbatim>\<open>add_host(a)\<close> on a registry that has a host for address \<open>a\<close> returns that host and
  leaves the Session unchanged; on a registry that has none it appends one entry for \<open>a\<close>,
  whose host has address \<open>a\<close> and reachability \<open>PENDING\<close>, and returns that host. A second
  \<^verbatim>\<open>add_host(a)\<close> returns the same host and changes nothing. From a registry whose addresses
  are pairwise distinct, every sequence of \<^verbatim>\<open>add_host\<close> and \<^verbatim>\<open>purge_hosts\<close> calls, with any
  arguments, leaves a registry whose addresses are pairwise distinct.
\<close>

theorem add_host_idempotent_addresses_unique:
  "(\<forall>h. map_of (m_hosts s) a = Some h \<longrightarrow> add_host a False s = (h, s)) \<and>
   (map_of (m_hosts s) a = None \<longrightarrow>
      (\<exists>h. add_host a should_mark s = (h, s\<lparr>m_hosts := m_hosts s @ [(a, h)]\<rparr>) \<and>
           host_address h = a \<and> reachability h = HOST_PENDING)) \<and>
   add_host a False (snd (add_host a False s)) = add_host a False s \<and>
   (distinct (map fst (m_hosts s)) \<longrightarrow> distinct (map fst (m_hosts (run_registry ops s))))"
  by (simp add: add_host_present add_host_absent add_host_idem distinct_run_registry)

text \<open>A registry with two hosts: adding the first address again returns the host that is
  there, adding a third address appends a pending host, and a run of calls that adds, purges
  and adds again keeps the addresses distinct.\<close>

theorem add_host_idempotent_addresses_unique_witness:
  "map_of (m_hosts \<lparr>m_keyspace = ''ks'', m_keyspace_mutex = None, m_connect_future = None,
       m_hosts = [(''10.0.0.1'', \<lparr>host_address = ''10.0.0.1'', reachability = HOST_UP, mark = True\<rparr>),
                  (''10.0.0.2'', \<lparr>host_address = ''10.0.0.2'', reachability = HOST_DOWN, mark = False\<rparr>)],
       m_current_host_mark = False, event_queue = [], queue_capacity = 4\<rparr>) ''10.0.0.1'' =
     Some \<lparr>host_address = ''10.0.0.1'', reachability = HOST_UP, mark = True\<rparr> \<and>
   add_host ''10.0.0.1'' False \<lparr>m_keyspace = ''ks'', m_keyspace_mutex = None, m_connect_future = None,
       m_hosts = [(''10.0.0.1'', \<lparr>host_address = ''10.0.0.1'', reachability = HOST_UP, mark = True\<rparr>),
                  (''10.0.0.2'', \<lparr>host_address = ''10.0.0.2'', reachability = HOST_DOWN, mark = False\<rparr>)],
       m_current_host_mark = False, event_queue = [], queue_capacity = 4\<rparr> =
     (\<lparr>host_address = ''10.0.0.1'', reachability = HOST_UP, mark = True\<rparr>,
      \<lparr>m_keyspace = ''ks'', m_keyspace_mutex = None, m_connect_future = None,
       m_hosts = [(''10.0.0.1'', \<lparr>host_address = ''10.0.0.1'', reachability = HOST_UP, mark = True\<rparr>),
                  (''10.0.0.2'', \<lparr>host_address = ''10.0.0.2'', reachability = HOST_DOWN, mark = False\<rparr>)],
       m_current_host_mark = False, event_queue = [], queue_capacity = 4\<rparr>) \<and>
   map_of (m_hosts \<lparr>m_keyspace = ''ks'', m_keyspace_mutex = None, m_connect_future = None,
       m_hosts = [(''10.0.0.1'', \<lparr>host_address = ''10.0.0.1'', reachability = HOST_UP, mark = True\<rparr>),
                  (''10.0.0.2'', \<lparr>host_address = ''10.0.0.2'', reachability = HOST_DOWN, mark = False\<rparr>)],
       m_current_host_mark = False, event_queue = [], queue_capacity = 4\<rparr>) ''10.0.0.3'' = None \<and>
   (\<exists>h. fst (add_host ''10.0.0.3'' True \<lparr>m_keyspace = ''ks'', m_keyspace_mutex = None, m_connect_future = None,
       m_hosts = [(''10.0.0.1'', \<lparr>host_address = ''10.0.0.1'', reachability = HOST_UP, mark = True\<rparr>),
                  (''10.0.0.2'', \<lparr>host_address = ''10.0.0.2'', reachability = HOST_DOWN, mark = False\<rparr>)],
       m_current_host_mark = False, event_queue = [], queue_capacity = 4\<rparr>) = h \<and>
        host_address h = ''10.0.0.3'' \<and> reachability h = HOST_PENDING) \<and>
   distinct (map fst (m_hosts \<lparr>m_keyspace = ''ks'', m_keyspace_mutex = None, m_connect_future = None,
       m_hosts = [(''10.0.0.1'', \<lparr>host_address = ''10.0.0.1'', reachability = HOST_UP, mark = True\<rparr>),
                  (''10.0.0.2'', \<lparr>host_address = ''10.0.0.2'', reachability = HOST_DOWN, mark = False\<rparr>)],
       m_current_host_mark = False, event_queue = [], queue_capacity = 4\<rparr>)) \<and>
   distinct (map fst (m_hosts (run_registry
      [ADD_HOST ''10.0.0.3'' True, ADD_HOST ''10.0.0.1'' False, PURGE_HOSTS False,
       ADD_HOST ''10.0.0.1'' False, ADD_HOST ''10.0.0.3'' False]
      \<lparr>m_keyspace = ''ks'', m_keyspace_mutex = None, m_connect_future = None,
       m_hosts = [(''10.0.0.1'', \<lparr>host_address = ''10.0.0.1'', reachability = HOST_UP, mark = True\<rparr>),
                  (''10.0.0.2'', \<lparr>host_address = ''10.0.0.2'', reachability = HOST_DOWN, mark = False\<rparr>)],
       m_current_host_mark = False, event_queue = [], queue_capacity = 4\<rparr>)))"
proof -
  let ?s = "\<lparr>m_keyspace = ''ks'', m_keyspace_mutex = None, m_connect_future = None,
       m_hosts = [(''10.0.0.1'', \<lparr>host_address = ''10.0.0.1'', reachability = HOST_UP, mark = True\<rparr>),
                  (''10.0.0.2'', \<lparr>host_address = ''10.0.0.2'', reachability = HOST_DOWN, mark = False\<rparr>)],
       m_current_host_mark = False, event_queue = [], queue_capacity = 4\<rparr>"
  have present: "map_of (m_hosts ?s) ''10.0.0.1'' =
     Some \<lparr>host_address = ''10.0.0.1'', reachability = HOST_UP, mark = True\<rparr>"
    by simp
  have absent: "map_of (m_hosts ?s) ''10.0.0.3'' = None"
    by simp
  have apart: "distinct (map fst (m_hosts ?s))"
    by simp
  from add_host_idempotent_addresses_unique [of ?s "''10.0.0.1''" True
      "[ADD_HOST ''10.0.0.3'' True, ADD_HOST ''10.0.0.1'' False, PURGE_HOSTS False,
        ADD_HOST ''10.0.0.1'' False, ADD_HOST ''10.0.0.3'' False]"]
    add_host_idempotent_addresses_unique [of ?s "''10.0.0.3''" True "[]"]
    present absent apart
  show ?thesis
    by auto
qed

section \<open>Properties of the event injections and of connect\<close>

lemma deliver_all_queue: "deliver_all s = event_queue s"
proof (induction "event_queue s" arbitrary: s)
  case Nil
  from Nil [symmetric] show ?case
    by (subst deliver_all.simps) (simp add: deliver_next_def)
next
  case (Cons e waiting)
  from Cons(2) [symmetric] have "deliver_all s = e # deliver_all (s\<lparr>event_queue := waiting\<rparr>)"
    by (subst deliver_all.simps) (simp add: deliver_next_def)
  also have "deliver_all (s\<lparr>event_queue := waiting\<rparr>) = waiting"
    using Cons(1) [of "s\<lparr>event_queue := waiting\<rparr>"] by simp
  finally show ?case using Cons(2) by simp
qed

text \<open>
  C9. Each of \<^verbatim>\<open>notify_ready_async\<close>, \<^verbatim>\<open>notify_closed_async\<close>, \<^verbatim>\<open>notify_up_async\<close> and
  \<^verbatim>\<open>notify_down_async\<close> returns a boolean: when it is true, the events the event loop will
  hand to \<^verbatim>\<open>on_event\<close> are those that were waiting, in their order, followed by one event
  of the call's type (and address); when it is false the Session is unchanged, so nothing
  was enqueued. The event of \<^verbatim>\<open>notify_down_async(a, critical)\<close> is delivered with type
  \<open>NOTIFY_DOWN\<close>, address \<open>a\<close> and \<open>is_critical_failure\<close> equal to \<open>critical\<close>.
\<close>

theorem notify_async_enqueues_event_intact:
  "(fst (notify_down_async a critical s) \<longrightarrow>
      deliver_all (snd (notify_down_async a critical s)) =
        deliver_all s @ [\<lparr>type = NOTIFY_DOWN, address = a, is_critical_failure = critical\<rparr>]) \<and>
   (fst (notify_up_async a s) \<longrightarrow>
      (\<exists>e. deliver_all (snd (notify_up_async a s)) = deliver_all s @ [e] \<and>
           type e = NOTIFY_UP \<and> address e = a)) \<and>
   (fst (notify_ready_async s) \<longrightarrow>
      (\<exists>e. deliver_all (snd (notify_ready_async s)) = deliver_all s @ [e] \<and>
           type e = NOTIFY_READY)) \<and>
   (fst (notify_closed_async s) \<longrightarrow>
      (\<exists>e. deliver_all (snd (notify_closed_async s)) = deliver_all s @ [e] \<and>
           type e = NOTIFY_CLOSED)) \<and>
   (\<not> fst (notify_down_async a critical s) \<longrightarrow> snd (notify_down_async a critical s) = s) \<and>
   (\<not> fst (notify_up_async a s) \<longrightarrow> snd (notify_up_async a s) = s) \<and>
   (\<not> fst (notify_ready_async s) \<longrightarrow> snd (notify_ready_async s) = s) \<and>
   (\<not> fst (notify_closed_async s) \<longrightarrow> snd (notify_closed_async s) = s)"
  by (simp add: deliver_all_queue notify_down_async_def notify_up_async_def
      notify_ready_async_def notify_closed_async_def send_event_async_def)

text \<open>A critical down notification behind one waiting event, on a queue with room and on a
  full queue.\<close>

theorem notify_async_enqueues_event_intact_witness:
  "fst (notify_down_async ''10.0.0.2'' True
     \<lparr>m_keyspace = ''ks'', m_keyspace_mutex = None, m_connect_future = None,
       m_hosts = [], m_current_host_mark = False, event_queue = [\<lparr>type = NOTIFY_READY, address = [], is_critical_failure = False\<rparr>], queue_capacity = 4\<rparr>) \<and>
   deliver_all (snd (notify_down_async ''10.0.0.2'' True
     \<lparr>m_keyspace = ''ks'', m_keyspace_mutex = None, m_connect_future = None,
       m_hosts = [], m_current_host_mark = False, event_queue = [\<lparr>type = NOTIFY_READY, address = [], is_critical_failure = False\<rparr>], queue_capacity = 4\<rparr>)) =
     [\<lparr>type = NOTIFY_READY, address = [], is_critical_failure = False\<rparr>,
      \<lparr>type = NOTIFY_DOWN, address = ''10.0.0.2'', is_critical_failure = True\<rparr>] \<and>
   \<not> fst (notify_down_async ''10.0.0.2'' True
     \<lparr>m_keyspace = ''ks'', m_keyspace_mutex = None, m_connect_future = None,
       m_hosts = [], m_current_host_mark = False, event_queue = [\<lparr>type = NOTIFY_READY, address = [], is_critical_failure = False\<rparr>], queue_capacity = 1\<rparr>) \<and>
   snd (notify_down_async ''10.0.0.2'' True
     \<lparr>m_keyspace = ''ks'', m_keyspace_mutex = None, m_connect_future = None,
       m_hosts = [], m_current_host_mark = False, event_queue = [\<lparr>type = NOTIFY_READY, address = [], is_critical_failure = False\<rparr>], queue_capacity = 1\<rparr>) =
     \<lparr>m_keyspace = ''ks'', m_keyspace_mutex = None, m_connect_future = None,
       m_hosts = [], m_current_host_mark = False, event_queue = [\<lparr>type = NOTIFY_READY, address = [], is_critical_failure = False\<rparr>], queue_capacity = 1\<rparr>"
proof -
  let ?room = "\<lparr>m_keyspace = ''ks'', m_keyspace_mutex = None, m_connect_future = None,
       m_hosts = [], m_current_host_mark = False, event_queue = [\<lparr>type = NOTIFY_READY, address = [], is_critical_failure = False\<rparr>], queue_capacity = 4\<rparr>"
  let ?full = "\<lparr>m_keyspace = ''ks'', m_keyspace_mutex = None, m_connect_future = None,
       m_hosts = [], m_current_host_mark = False, event_queue = [\<lparr>type = NOTIFY_READY, address = [], is_critical_failure = False\<rparr>], queue_capacity = 1\<rparr>"
  have sent: "fst (notify_down_async ''10.0.0.2'' True ?room)"
    by (simp add: notify_down_async_def send_event_async_def)
  have refused: "\<not> fst (notify_down_async ''10.0.0.2'' True ?full)"
    by (simp add: notify_down_async_def send_event_async_def)
  have waiting: "deliver_all ?room = [\<lparr>type = NOTIFY_READY, address = [], is_critical_failure = False\<rparr>]"
    by (simp add: deliver_all_queue)
  from notify_async_enqueues_event_intact [of "''10.0.0.2''" True ?room]
    notify_async_enqueues_event_intact [of "''10.0.0.2''" True ?full]
    sent refused waiting
  show ?thesis
    by simp
qed

text \<open>
  C5. While the Session holds a connect future, \<^verbatim>\<open>connect_async\<close> fails at once with the
  already-connecting result and returns the Session exactly as it was: the connect future
  it holds, the stored keyspace and the queued events of the connect in flight are
  untouched. In particular, after a first \<^verbatim>\<open>connect_async\<close> on a Session with no connect in
  flight, the Session holds the first future and keyspace, and a second call is rejected
  and changes nothing.
\<close>

theorem connect_async_rejects_second_connect:
  "(m_connect_future s \<noteq> None \<longrightarrow> connect_async ks fut s = (ALREADY_CONNECTING, s)) \<and>
   (m_connect_future s = None \<longrightarrow>
      m_connect_future (snd (connect_async ks1 fut1 s)) = Some fut1 \<and>
      m_keyspace (snd (connect_async ks1 fut1 s)) = ks1 \<and>
      connect_async ks2 fut2 (snd (connect_async ks1 fut1 s)) =
        (ALREADY_CONNECTING, snd (connect_async ks1 fut1 s)))"
  by (simp add: connect_async_def send_event_async_def)

text \<open>Two connects in a row on a fresh Session: the second is rejected and the first future
  stays.\<close>

theorem connect_async_rejects_second_connect_witness:
  "m_connect_future \<lparr>m_keyspace = ''ks'', m_keyspace_mutex = None, m_connect_future = None,
       m_hosts = [], m_current_host_mark = False, event_queue = [], queue_capacity = 4\<rparr> = None \<and>
   connect_async ''ks1'' 7 \<lparr>m_keyspace = ''ks'', m_keyspace_mutex = None, m_connect_future = None,
       m_hosts = [], m_current_host_mark = False, event_queue = [], queue_capacity = 4\<rparr> =
     (CONNECT_SCHEDULED,
      \<lparr>m_keyspace = ''ks1'', m_keyspace_mutex = None, m_connect_future = Some 7,
       m_hosts = [], m_current_host_mark = False, event_queue = [\<lparr>type = CONNECT, address = [], is_critical_failure = False\<rparr>], queue_capacity = 4\<rparr>) \<and>
   connect_async ''ks2'' 8
      \<lparr>m_keyspace = ''ks1'', m_keyspace_mutex = None, m_connect_future = Some 7,
       m_hosts = [], m_current_host_mark = False, event_queue = [\<lparr>type = CONNECT, address = [], is_critical_failure = False\<rparr>], queue_capacity = 4\<rparr> =
     (ALREADY_CONNECTING,
      \<lparr>m_keyspace = ''ks1'', m_keyspace_mutex = None, m_connect_future = Some 7,
       m_hosts = [], m_current_host_mark = False, event_queue = [\<lparr>type = CONNECT, address = [], is_critical_failure = False\<rparr>], queue_capacity = 4\<rparr>)"
proof -
  let ?s = "\<lparr>m_keyspace = ''ks'', m_keyspace_mutex = None, m_connect_future = None,
       m_hosts = [], m_current_host_mark = False, event_queue = [], queue_capacity = 4\<rparr>"
  have idle: "m_connect_future ?s = None"
    by simp
  have first: "connect_async ''ks1'' 7 ?s =
     (CONNECT_SCHEDULED,
      \<lparr>m_keyspace = ''ks1'', m_keyspace_mutex = None, m_connect_future = Some 7,
       m_hosts = [], m_current_host_mark = False, event_queue = [\<lparr>type = CONNECT, address = [], is_critical_failure = False\<rparr>], queue_capacity = 4\<rparr>)"
    by (simp add: connect_async_def send_event_async_def)
  from connect_async_rejects_second_connect [of ?s "''ks2''" 8 "''ks1''" 7 "''ks2''" 8]
    idle first
  show ?thesis
    by simp
qed

end
